theory Spec2Isabelle
  imports Main
begin

section \<open>The intermediate representation (types.ts)\<close>

text \<open>
  An \<open>InstrId\<close> is a JavaScript number that is always produced as the size of a map, so
  it is a natural number.  Source locations (\<open>loc\<close>) are carried by every instruction but
  read by no function of the pipeline; they are left out.  Numeric literals are modelled
  as integers.
\<close>

type_synonym InstrId = nat

datatype lit_value = LitString string | LitNumber int | LitBoolean bool

datatype Value = RValue InstrId | LiteralValue lit_value

datatype prop_name = PropString string | PropNumber int

datatype Instruction =
    Call InstrId "string option" "Value list"
  | Object "(string \<times> Value) list"
  | ReadProperty InstrId prop_name
  | Declare string InstrId
  | Param string
  | LoadConstant string
  | Return "InstrId option"

text \<open>
  A JavaScript \<open>Map\<close> keeps its keys in insertion order and holds each key once; it is an
  association list whose keys are distinct.  \<open>map_set\<close> overwrites the value of a key that
  is present (the key keeps its place) and appends a new key otherwise.  A JavaScript
  \<open>Set\<close> is a list without repetition, in insertion order.
\<close>

type_synonym ('k, 'v) jsmap = "('k \<times> 'v) list"

definition map_get :: "('k, 'v) jsmap \<Rightarrow> 'k \<Rightarrow> 'v option" where
  "map_get m k = map_of m k"

definition map_has :: "('k, 'v) jsmap \<Rightarrow> 'k \<Rightarrow> bool" where
  "map_has m k = (k \<in> set (map fst m))"

fun map_set :: "'k \<Rightarrow> 'v \<Rightarrow> ('k, 'v) jsmap \<Rightarrow> ('k, 'v) jsmap" where
  "map_set k v [] = [(k, v)]"
| "map_set k v ((k', v') # m) = (if k = k' then (k, v) # m else (k', v') # map_set k v m)"

definition set_add :: "'a \<Rightarrow> 'a list \<Rightarrow> 'a list" where
  "set_add x xs = (if x \<in> set xs then xs else xs @ [x])"

type_synonym FunctionBody = "(InstrId, Instruction) jsmap"

record ValueInfo =
  dependencies :: "InstrId list option"
  instructions :: "InstrId list option"
  shouldMemo :: "bool option"

type_synonym ValueInfos = "(InstrId, ValueInfo) jsmap"

record ReactiveBlock =
  instrs :: "(InstrId, Instruction) jsmap"
  decls :: "InstrId list"
  deps :: "InstrId list"

datatype ReactiveInstruction =
    Block ReactiveBlock
  | PlainInstr Instruction InstrId

text \<open>What a JavaScript exception carries: \<open>new Error(msg)\<close>, a \<open>TypeError\<close> from reading a
  property of \<open>undefined\<close>, and the \<open>RangeError\<close> of a call stack that overflows.\<close>

datatype error = Error string | TypeError | RangeError

section \<open>LoweredJavaScript.ts: the operands of an instruction\<close>

fun eachValue :: "Instruction \<Rightarrow> InstrId list" where
  "eachValue (Call receiver property args) =
     receiver # concat (map (\<lambda>arg. case arg of RValue v \<Rightarrow> [v] | LiteralValue _ \<Rightarrow> []) args)"
| "eachValue (Object properties) =
     concat (map (\<lambda>(_, value). case value of RValue v \<Rightarrow> [v] | LiteralValue _ \<Rightarrow> []) properties)"
| "eachValue (ReadProperty object _) = [object]"
| "eachValue (Declare _ rhs) = [rhs]"
| "eachValue (Return value) = (case value of Some v \<Rightarrow> [v] | None \<Rightarrow> [])"
| "eachValue (Param _) = []"
| "eachValue (LoadConstant _) = []"

section \<open>Analysis.ts\<close>

definition startsWith :: "string \<Rightarrow> string \<Rightarrow> bool" where
  "startsWith s p = (take (length p) s = p)"

definition includes_str :: "string \<Rightarrow> string \<Rightarrow> bool" where
  "includes_str s t = list_ex (\<lambda>i. take (length t) (drop i s) = t) [0..<Suc (length s)]"

text \<open>\<open>fn.split('.')[0]\<close>: the text before the first dot.\<close>

definition split_dot_head :: "string \<Rightarrow> string" where
  "split_dot_head s = takeWhile (\<lambda>c. c \<noteq> CHR ''.'') s"

definition isHookCall :: "Instruction \<Rightarrow> FunctionBody \<Rightarrow> bool" where
  "isHookCall instr func =
     (case instr of
        Call receiver _ _ \<Rightarrow>
          (case map_get func receiver of
             Some (LoadConstant variableName) \<Rightarrow> startsWith variableName ''use''
           | _ \<Rightarrow> False)
      | _ \<Rightarrow> False)"

definition expensiveMethods :: "string list" where
  "expensiveMethods = [''map'', ''filter'', ''reduce'', ''sort'', ''find'', ''findIndex'']"

definition expensiveFunctions :: "string list" where
  "expensiveFunctions = [''Math.sqrt'', ''Math.pow'', ''Math.sin'', ''Math.cos'']"

text \<open>\<open>if (instr.property)\<close> is taken for a property that is neither \<open>null\<close> nor the empty
  string, and returns from the function at once.\<close>

definition isExpensiveOperation :: "Instruction \<Rightarrow> FunctionBody \<Rightarrow> bool" where
  "isExpensiveOperation instr func =
     (case instr of
        Call receiver property _ \<Rightarrow>
          (if property \<noteq> None \<and> property \<noteq> Some []
           then the property \<in> set expensiveMethods
           else (case map_get func receiver of
                   Some (LoadConstant variableName) \<Rightarrow>
                     list_ex (\<lambda>fn. includes_str variableName (split_dot_head fn)) expensiveFunctions
                 | _ \<Rightarrow> False))
      | Object _ \<Rightarrow> True
      | _ \<Rightarrow> False)"

definition isParam :: "Instruction \<Rightarrow> bool" where
  "isParam instr = (case instr of Param _ \<Rightarrow> True | _ \<Rightarrow> False)"

definition mayChangeStep :: "FunctionBody \<Rightarrow> InstrId \<times> Instruction \<Rightarrow> InstrId list \<Rightarrow> InstrId list" where
  "mayChangeStep func = (\<lambda>(id, instr) mayChange.
     if isParam instr \<or> isHookCall instr func then set_add id mayChange
     else fold (\<lambda>used mc. if used \<in> set mc then set_add id mc else mc) (eachValue instr) mayChange)"

definition getValuesThatMayChange :: "FunctionBody \<Rightarrow> InstrId list" where
  "getValuesThatMayChange func = fold (mayChangeStep func) func []"

definition isObjectOrCall :: "Instruction \<Rightarrow> bool" where
  "isObjectOrCall instr = (case instr of Object _ \<Rightarrow> True | Call _ _ _ \<Rightarrow> True | _ \<Rightarrow> False)"

definition writableStep :: "InstrId \<times> Instruction \<Rightarrow> InstrId list \<Rightarrow> InstrId list" where
  "writableStep = (\<lambda>(id, instr) maybeWritable.
     if isObjectOrCall instr then set_add id maybeWritable
     else fold (\<lambda>used w. if used \<in> set w then set_add id w else w) (eachValue instr) maybeWritable)"

definition getWritableValues :: "FunctionBody \<Rightarrow> InstrId list" where
  "getWritableValues func = fold writableStep func []"

text \<open>Step 1 of \<open>analyze\<close>: the dependencies and the memoization flag of one instruction.\<close>

definition collectDependencies :: "InstrId list \<Rightarrow> Instruction \<Rightarrow> InstrId list" where
  "collectDependencies mayChange instr =
     fold (\<lambda>used ds. if used \<in> set mayChange then set_add used ds else ds) (eachValue instr) []"

definition analyzeStep1 :: "FunctionBody \<Rightarrow> InstrId list \<Rightarrow> InstrId \<times> Instruction \<Rightarrow> ValueInfos \<Rightarrow> ValueInfos" where
  "analyzeStep1 func mayChange = (\<lambda>(id, instr) result.
     let ds = collectDependencies mayChange instr in
     map_set id \<lparr>dependencies = Some ds, instructions = None,
                 shouldMemo = Some (isExpensiveOperation instr func \<and> length ds > 0)\<rparr> result)"

text \<open>Step 2: \<open>result.get(used)!.instructions ??= new Set(); ... .add(id)\<close>.  Reading
  \<open>instructions\<close> of a missing entry is a \<open>TypeError\<close>.\<close>

definition addMutator :: "InstrId \<Rightarrow> InstrId \<Rightarrow> ValueInfos \<Rightarrow> error + ValueInfos" where
  "addMutator used id' result =
     (case map_get result used of
        None \<Rightarrow> Inl TypeError
      | Some info \<Rightarrow>
          Inr (map_set used
                 (info\<lparr>instructions :=
                    Some (set_add id' (case instructions info of None \<Rightarrow> [] | Some s \<Rightarrow> s))\<rparr>)
                 result))"

fun mutatorLoop :: "InstrId list \<Rightarrow> InstrId \<Rightarrow> InstrId list \<Rightarrow> ValueInfos \<Rightarrow> error + ValueInfos" where
  "mutatorLoop writableValues id' [] result = Inr result"
| "mutatorLoop writableValues id' (used # rest) result =
     (if used \<in> set writableValues
      then (case addMutator used id' result of
              Inl e \<Rightarrow> Inl e
            | Inr result' \<Rightarrow> mutatorLoop writableValues id' rest result')
      else mutatorLoop writableValues id' rest result)"

definition isCall :: "Instruction \<Rightarrow> bool" where
  "isCall instr = (case instr of Call _ _ _ \<Rightarrow> True | _ \<Rightarrow> False)"

fun analyzeStep2 :: "InstrId list \<Rightarrow> FunctionBody \<Rightarrow> ValueInfos \<Rightarrow> error + ValueInfos" where
  "analyzeStep2 writableValues [] result = Inr result"
| "analyzeStep2 writableValues ((id', instr) # rest) result =
     (if isCall instr
      then (case mutatorLoop writableValues id' (eachValue instr) result of
              Inl e \<Rightarrow> Inl e
            | Inr result' \<Rightarrow> analyzeStep2 writableValues rest result')
      else analyzeStep2 writableValues rest result)"

definition analyze :: "FunctionBody \<Rightarrow> error + ValueInfos" where
  "analyze func =
     (let mayChange = getValuesThatMayChange func;
          result = fold (analyzeStep1 func mayChange) func [];
          writableValues = getWritableValues func
      in analyzeStep2 writableValues func result)"

definition shouldMemoize :: "ValueInfo \<Rightarrow> bool" where
  "shouldMemoize info =
     (shouldMemo info = Some True \<and>
      (case dependencies info of None \<Rightarrow> False | Some ds \<Rightarrow> length ds > 0))"

section \<open>The host syntax tree\<close>

text \<open>
  A Babel node is a tree tagged with its \<open>type\<close>.  Only the node kinds that some
  function of the compiler inspects have constructors of their own; every other kind is
  an \<open>OtherNode\<close> carrying its type name.  A hole of an array pattern is \<open>None\<close>.
\<close>

datatype node =
    Identifier string
  | StringLiteral string
  | NumericLiteral int
  | BooleanLiteral bool
  | MemberExpression node node bool
  | CallExpression node "node list"
  | ObjectExpression "node list"
  | ObjectProperty node node
  | SpreadElement node
  | ArrayExpression "node list"
  | ArrowFunctionExpression "node list" node
  | FunctionExpression "node list" node
  | BlockStatement "node list"
  | BinaryExpression string node node
  | ReturnStatement "node option"
  | ExpressionStatement node
  | VariableDeclaration string "node list"
  | VariableDeclarator node "node option"
  | ArrayPattern "node option list"
  | ObjectPattern "node list"
  | OtherNode string

fun node_type :: "node \<Rightarrow> string" where
  "node_type (Identifier _) = ''Identifier''"
| "node_type (StringLiteral _) = ''StringLiteral''"
| "node_type (NumericLiteral _) = ''NumericLiteral''"
| "node_type (BooleanLiteral _) = ''BooleanLiteral''"
| "node_type (MemberExpression _ _ _) = ''MemberExpression''"
| "node_type (CallExpression _ _) = ''CallExpression''"
| "node_type (ObjectExpression _) = ''ObjectExpression''"
| "node_type (ObjectProperty _ _) = ''ObjectProperty''"
| "node_type (SpreadElement _) = ''SpreadElement''"
| "node_type (ArrayExpression _) = ''ArrayExpression''"
| "node_type (ArrowFunctionExpression _ _) = ''ArrowFunctionExpression''"
| "node_type (FunctionExpression _ _) = ''FunctionExpression''"
| "node_type (BlockStatement _) = ''BlockStatement''"
| "node_type (BinaryExpression _ _ _) = ''BinaryExpression''"
| "node_type (ReturnStatement _) = ''ReturnStatement''"
| "node_type (ExpressionStatement _) = ''ExpressionStatement''"
| "node_type (VariableDeclaration _ _) = ''VariableDeclaration''"
| "node_type (VariableDeclarator _ _) = ''VariableDeclarator''"
| "node_type (ArrayPattern _) = ''ArrayPattern''"
| "node_type (ObjectPattern _) = ''ObjectPattern''"
| "node_type (OtherNode ty) = ty"

datatype func_decl = FunctionDeclaration "string option" "node list" "node list"

section \<open>Transform.ts: lowering\<close>

text \<open>
  Numbers.  A numeric literal is modelled by an integer value, and \<open>string_of_int\<close> is the
  decimal text that \<open>String(n)\<close> and template literals print for an integer of magnitude
  below \<open>10^21\<close>.  Outside that range JavaScript prints the exponent form, and a literal
  with a fraction has no counterpart here: the model covers integer literals below
  \<open>10^21\<close> only.  The text of a number only ever becomes the name of a \<open>LoadConstant\<close>.
\<close>

fun string_of_nat :: "nat \<Rightarrow> string" where
  "string_of_nat n =
     (if n < 10 then [char_of (48 + n)]
      else string_of_nat (n div 10) @ [char_of (48 + n mod 10)])"

definition string_of_int :: "int \<Rightarrow> string" where
  "string_of_int i = (if i < 0 then CHR ''-'' # string_of_nat (nat (- i)) else string_of_nat (nat i))"

text \<open>The log sink: \<open>console.log(printInstr(instr, id))\<close> is an \<open>InstrLine\<close>, any other
  line is its text.  The warning sign is written as its UTF-8 bytes.\<close>

datatype log_line = InstrLine Instruction InstrId | TextLine string

definition warning_sign :: string where
  "warning_sign = [char_of (0xE2::nat), char_of (0x9A::nat), char_of (0xA0::nat),
                   char_of (0xEF::nat), char_of (0xB8::nat), char_of (0x8F::nat)]"

type_synonym lstate = "FunctionBody \<times> log_line list"

definition assertsValid :: "bool \<Rightarrow> string \<Rightarrow> error + unit" where
  "assertsValid cond msg = (if \<not> cond then Inl (Error (''Invalid syntax. '' @ msg)) else Inr ())"

fun getDeclaration :: "FunctionBody \<Rightarrow> string \<Rightarrow> InstrId option" where
  "getDeclaration [] variableName = None"
| "getDeclaration ((id', instr) # rest) variableName =
     (case instr of
        Declare lhs _ \<Rightarrow> if lhs = variableName then Some id' else getDeclaration rest variableName
      | Param name \<Rightarrow> if name = variableName then Some id' else getDeclaration rest variableName
      | _ \<Rightarrow> getDeclaration rest variableName)"

text \<open>\<open>const currValue = state.size; state.set(currValue, instr); logInstr(state, currValue);
  return currValue\<close>.\<close>

definition emit :: "Instruction \<Rightarrow> lstate \<Rightarrow> lstate \<times> InstrId" where
  "emit instr st =
     (let currValue = length (fst st)
      in ((map_set currValue instr (fst st), snd st @ [InstrLine instr currValue]), currValue))"

definition isIdentifier :: "node \<Rightarrow> bool" where
  "isIdentifier n = (case n of Identifier _ \<Rightarrow> True | _ \<Rightarrow> False)"

definition identifier_name :: "node \<Rightarrow> string" where
  "identifier_name n = (case n of Identifier name \<Rightarrow> name | _ \<Rightarrow> [])"

definition literalValue :: "node \<Rightarrow> lit_value option" where
  "literalValue n =
     (case n of
        StringLiteral s \<Rightarrow> Some (LitString s)
      | NumericLiteral v \<Rightarrow> Some (LitNumber v)
      | BooleanLiteral b \<Rightarrow> Some (LitBoolean b)
      | _ \<Rightarrow> None)"

definition memberPropertyName :: "node \<Rightarrow> error + prop_name" where
  "memberPropertyName property =
     (case property of
        Identifier name \<Rightarrow> Inr (PropString name)
      | NumericLiteral v \<Rightarrow> Inr (PropNumber v)
      | StringLiteral s \<Rightarrow> Inr (PropString s)
      | _ \<Rightarrow> Inl (Error (''Unsupported property type: '' @ node_type property)))"

fun join_comma :: "string list \<Rightarrow> string" where
  "join_comma [] = []"
| "join_comma [x] = x"
| "join_comma (x # y # ys) = x @ '', '' @ join_comma (y # ys)"

definition arrayPatternName :: "node option list \<Rightarrow> string" where
  "arrayPatternName elements =
     ''['' @ join_comma (map (\<lambda>(el, i). case el of
                                  Some (Identifier name) \<Rightarrow> name
                                | _ \<Rightarrow> CHR ''_'' # string_of_nat i)
                           (zip elements [0..<length elements])) @ '']''"

text \<open>What the branches of \<open>lowerBabelInstr\<close> read off a node: the parts of a member
  expression, of an object property and of a declarator, and the name a declarator binds
  (an identifier, or the combined name of an array pattern).\<close>

definition asMemberExpression :: "node \<Rightarrow> (node \<times> node) option" where
  "asMemberExpression n =
     (case n of MemberExpression object property _ \<Rightarrow> Some (object, property) | _ \<Rightarrow> None)"

definition asObjectProperty :: "node \<Rightarrow> (node \<times> node) option" where
  "asObjectProperty n = (case n of ObjectProperty key value \<Rightarrow> Some (key, value) | _ \<Rightarrow> None)"

definition asVariableDeclarator :: "node \<Rightarrow> (node \<times> node option) option" where
  "asVariableDeclarator n = (case n of VariableDeclarator id' init \<Rightarrow> Some (id', init) | _ \<Rightarrow> None)"

definition declaredName :: "node \<Rightarrow> string option" where
  "declaredName id' =
     (case id' of
        Identifier name \<Rightarrow> Some name
      | ArrayPattern elements \<Rightarrow> Some (arrayPatternName elements)
      | _ \<Rightarrow> None)"

lemma asMemberExpression_size:
  "asMemberExpression n = Some (object, property) \<Longrightarrow> size object < size n"
  by (cases n) (simp_all add: asMemberExpression_def)

lemma asObjectProperty_size:
  "asObjectProperty n = Some (key, value) \<Longrightarrow> size value < size n"
  by (cases n) (simp_all add: asObjectProperty_def)

lemma asVariableDeclarator_size:
  "asVariableDeclarator n = Some (id', Some init) \<Longrightarrow> size init < size n"
  by (cases n) (simp_all add: asVariableDeclarator_def)

function (sequential) lowerBabelInstr :: "node \<Rightarrow> lstate \<Rightarrow> error + (lstate \<times> InstrId)"
  and lowerProperties :: "node list \<Rightarrow> (string, Value) jsmap \<Rightarrow> lstate \<Rightarrow> error + (lstate \<times> (string, Value) jsmap)"
  and lowerArguments :: "node list \<Rightarrow> Value list \<Rightarrow> lstate \<Rightarrow> error + (lstate \<times> Value list)"
  and lowerDeclarations :: "node list \<Rightarrow> InstrId \<Rightarrow> lstate \<Rightarrow> error + (lstate \<times> InstrId)"
where
  "lowerBabelInstr (MemberExpression object property computed) state =
     (case lowerBabelInstr object state of
        Inl e \<Rightarrow> Inl e
      | Inr (state1, objectValue) \<Rightarrow>
          (case memberPropertyName property of
             Inl e \<Rightarrow> Inl e
           | Inr propertyName \<Rightarrow> Inr (emit (ReadProperty objectValue propertyName) state1)))"
| "lowerBabelInstr (ObjectExpression properties) state =
     (case lowerProperties properties [] state of
        Inl e \<Rightarrow> Inl e
      | Inr (state1, propertyValues) \<Rightarrow> Inr (emit (Object propertyValues) state1))"
| "lowerBabelInstr (CallExpression callee args) state =
     (case (case asMemberExpression callee of
              Some member \<Rightarrow>
                (case lowerBabelInstr (fst member) state of
                   Inl e \<Rightarrow> Inl e
                 | Inr (state1, receiverValue) \<Rightarrow>
                     (case assertsValid (isIdentifier (snd member)) ''Only identifier properties supported'' of
                        Inl e \<Rightarrow> Inl e
                      | Inr _ \<Rightarrow> Inr (state1, receiverValue, Some (identifier_name (snd member)))))
            | None \<Rightarrow>
                (case lowerBabelInstr callee state of
                   Inl e \<Rightarrow> Inl e
                 | Inr (state1, receiverValue) \<Rightarrow> Inr (state1, receiverValue, None))) of
        Inl e \<Rightarrow> Inl e
      | Inr (state1, receiverValue, propertyName) \<Rightarrow>
          (case lowerArguments args [] state1 of
             Inl e \<Rightarrow> Inl e
           | Inr (state2, argumentValues) \<Rightarrow>
               Inr (emit (Call receiverValue propertyName argumentValues) state2)))"
| "lowerBabelInstr (ReturnStatement argument) state =
     (case argument of
        None \<Rightarrow> Inr (emit (Return None) state)
      | Some a \<Rightarrow>
          (case lowerBabelInstr a state of
             Inl e \<Rightarrow> Inl e
           | Inr (state1, argumentValue) \<Rightarrow> Inr (emit (Return (Some argumentValue)) state1)))"
| "lowerBabelInstr (VariableDeclaration kind declarations) state =
     lowerDeclarations declarations (length (fst state)) state"
| "lowerBabelInstr (Identifier name) state =
     (case getDeclaration (fst state) name of
        Some localDeclaration \<Rightarrow> Inr (state, localDeclaration)
      | None \<Rightarrow> Inr (emit (LoadConstant name) state))"
| "lowerBabelInstr (ExpressionStatement expression) state = lowerBabelInstr expression state"
| "lowerBabelInstr (StringLiteral s) state = Inr (emit (LoadConstant s) state)"
| "lowerBabelInstr (NumericLiteral v) state = Inr (emit (LoadConstant (string_of_int v)) state)"
| "lowerBabelInstr (BooleanLiteral b) state =
     Inr (emit (LoadConstant (if b then ''true'' else ''false'')) state)"
| "lowerBabelInstr (ArrowFunctionExpression _ _) state = Inr (emit (LoadConstant ''function'') state)"
| "lowerBabelInstr (FunctionExpression _ _) state = Inr (emit (LoadConstant ''function'') state)"
| "lowerBabelInstr other state =
     Inr (emit (LoadConstant (''unsupported_'' @ node_type other))
            (fst state,
             snd state @ [TextLine (warning_sign @ '' Skipping unsupported instruction: '' @ node_type other)]))"
| "lowerProperties [] propertyValues state = Inr (state, propertyValues)"
| "lowerProperties (prop # rest) propertyValues state =
     (case asObjectProperty prop of
        None \<Rightarrow> lowerProperties rest propertyValues state
      | Some (key, value) \<Rightarrow>
          (case assertsValid (isIdentifier key) ''Only identifier keys supported'' of
             Inl e \<Rightarrow> Inl e
           | Inr _ \<Rightarrow>
               (case literalValue value of
                  Some l \<Rightarrow>
                    lowerProperties rest (map_set (identifier_name key) (LiteralValue l) propertyValues) state
                | None \<Rightarrow>
                    (case lowerBabelInstr value state of
                       Inl e \<Rightarrow> Inl e
                     | Inr (state1, v) \<Rightarrow>
                         lowerProperties rest (map_set (identifier_name key) (RValue v) propertyValues) state1))))"
| "lowerArguments [] argumentValues state = Inr (state, argumentValues)"
| "lowerArguments (arg # rest) argumentValues state =
     (case literalValue arg of
        Some l \<Rightarrow> lowerArguments rest (argumentValues @ [LiteralValue l]) state
      | None \<Rightarrow>
          (case lowerBabelInstr arg state of
             Inl e \<Rightarrow> Inl e
           | Inr (state1, v) \<Rightarrow> lowerArguments rest (argumentValues @ [RValue v]) state1))"
| "lowerDeclarations [] lastValue state = Inr (state, lastValue)"
| "lowerDeclarations (decl # rest) lastValue state =
     (case asVariableDeclarator decl of
        None \<Rightarrow> lowerDeclarations rest lastValue state
      | Some (id', init) \<Rightarrow>
          (case init of
             None \<Rightarrow> Inl (Error (''Invalid syntax. '' @ ''Variable must have initializer''))
           | Some initNode \<Rightarrow>
               (case declaredName id' of
                  Some lhs \<Rightarrow>
                    (case lowerBabelInstr initNode state of
                       Inl e \<Rightarrow> Inl e
                     | Inr (state1, initValue) \<Rightarrow>
                         (let declared = emit (Declare lhs initValue) state1
                          in lowerDeclarations rest (snd declared) (fst declared)))
                | None \<Rightarrow>
                    lowerDeclarations rest lastValue
                      (fst state,
                       snd state @ [TextLine (warning_sign @ '' Skipping unsupported declaration pattern: ''
                                              @ node_type id')]))))"
  by pat_completeness auto
termination
  by (relation "measure (\<lambda>x. case x of
          Inl (Inl (n, _)) \<Rightarrow> size n
        | Inl (Inr (ns, _, _)) \<Rightarrow> size_list size ns
        | Inr (Inl (ns, _, _)) \<Rightarrow> size_list size ns
        | Inr (Inr (ns, _, _)) \<Rightarrow> size_list size ns)")
     (auto dest: asMemberExpression_size asObjectProperty_size asVariableDeclarator_size)

text \<open>\<open>readInstructions\<close>: the parameters first (no log line), then the body statements.\<close>

fun readObjectPatternParam :: "node list \<Rightarrow> FunctionBody \<Rightarrow> error + FunctionBody" where
  "readObjectPatternParam [] instrsMap = Inr instrsMap"
| "readObjectPatternParam (property # rest) instrsMap =
     (case property of
        ObjectProperty key _ \<Rightarrow>
          (case assertsValid (isIdentifier key) ''Cannot handle non-identifier key in destructured param'' of
             Inl e \<Rightarrow> Inl e
           | Inr _ \<Rightarrow>
               readObjectPatternParam rest (map_set (length instrsMap) (Param (identifier_name key)) instrsMap))
      | _ \<Rightarrow> Inl (Error (''Invalid syntax. '' @ ''Cannot handle '' @ node_type property @ '' in param'')))"

fun readParams :: "node list \<Rightarrow> FunctionBody \<Rightarrow> error + FunctionBody" where
  "readParams [] instrsMap = Inr instrsMap"
| "readParams (param # rest) instrsMap =
     (case param of
        ObjectPattern properties \<Rightarrow>
          (case readObjectPatternParam properties instrsMap of
             Inl e \<Rightarrow> Inl e
           | Inr instrsMap' \<Rightarrow> readParams rest instrsMap')
      | Identifier name \<Rightarrow> readParams rest (map_set (length instrsMap) (Param name) instrsMap)
      | _ \<Rightarrow> Inl (Error (''Invalid syntax. '' @ ''Cannot handle non-identifier param '' @ node_type param)))"

fun lowerStatements :: "node list \<Rightarrow> lstate \<Rightarrow> error + lstate" where
  "lowerStatements [] state = Inr state"
| "lowerStatements (instr # rest) state =
     (case lowerBabelInstr instr state of
        Inl e \<Rightarrow> Inl e
      | Inr (state1, _) \<Rightarrow> lowerStatements rest state1)"

definition readInstructions :: "func_decl \<Rightarrow> error + lstate" where
  "readInstructions func =
     (case func of
        FunctionDeclaration _ params body \<Rightarrow>
          (case readParams params [] of
             Inl e \<Rightarrow> Inl e
           | Inr instrsMap \<Rightarrow> lowerStatements body (instrsMap, [])))"

section \<open>CodeGen.ts: the disjoint-set structure\<close>

text \<open>
  \<open>find\<close> recurses along the parent links.  A JavaScript recursion that never ends
  overflows the call stack with a \<open>RangeError\<close>; the model counts the calls down from
  the number of keys plus one, which a chain of distinct keys never exceeds, and answers
  \<open>RangeError\<close> when the count is used up.
\<close>

record DisjointSet =
  parent :: "(InstrId, InstrId) jsmap"
  rank :: "(InstrId, nat) jsmap"

definition emptyDisjointSet :: DisjointSet where
  "emptyDisjointSet = \<lparr>parent = [], rank = []\<rparr>"

fun ds_find_rec :: "nat \<Rightarrow> DisjointSet \<Rightarrow> InstrId \<Rightarrow> error + (DisjointSet \<times> InstrId)" where
  "ds_find_rec 0 ds item = Inl RangeError"
| "ds_find_rec (Suc fuel) ds item =
     (let ds1 = (if \<not> map_has (parent ds) item
                 then ds\<lparr>parent := map_set item item (parent ds), rank := map_set item 0 (rank ds)\<rparr>
                 else ds)
      in case map_get (parent ds1) item of
           None \<Rightarrow> Inl TypeError
         | Some p \<Rightarrow>
             (if p \<noteq> item
              then (case ds_find_rec fuel ds1 p of
                      Inl e \<Rightarrow> Inl e
                    | Inr (ds2, root) \<Rightarrow> Inr (ds2\<lparr>parent := map_set item root (parent ds2)\<rparr>, root))
              else Inr (ds1, p)))"

definition ds_find :: "DisjointSet \<Rightarrow> InstrId \<Rightarrow> error + (DisjointSet \<times> InstrId)" where
  "ds_find ds item = ds_find_rec (Suc (length (parent ds))) ds item"

definition rank_of :: "DisjointSet \<Rightarrow> InstrId \<Rightarrow> nat" where
  "rank_of ds r = (case map_get (rank ds) r of None \<Rightarrow> 0 | Some k \<Rightarrow> k)"

definition unionTwo :: "InstrId \<Rightarrow> InstrId \<Rightarrow> DisjointSet \<Rightarrow> error + DisjointSet" where
  "unionTwo a b ds =
     (case ds_find ds a of
        Inl e \<Rightarrow> Inl e
      | Inr (ds1, rootA) \<Rightarrow>
          (case ds_find ds1 b of
             Inl e \<Rightarrow> Inl e
           | Inr (ds2, rootB) \<Rightarrow>
               (if rootA = rootB then Inr ds2
                else let rankA = rank_of ds2 rootA; rankB = rank_of ds2 rootB
                     in if rankA < rankB then Inr (ds2\<lparr>parent := map_set rootA rootB (parent ds2)\<rparr>)
                        else if rankA > rankB then Inr (ds2\<lparr>parent := map_set rootB rootA (parent ds2)\<rparr>)
                        else Inr (ds2\<lparr>parent := map_set rootB rootA (parent ds2),
                                       rank := map_set rootA (rankA + 1) (rank ds2)\<rparr>))))"

fun unionLoop :: "InstrId \<Rightarrow> InstrId list \<Rightarrow> DisjointSet \<Rightarrow> error + DisjointSet" where
  "unionLoop first [] ds = Inr ds"
| "unionLoop first (x # xs) ds =
     (case unionTwo first x ds of Inl e \<Rightarrow> Inl e | Inr ds' \<Rightarrow> unionLoop first xs ds')"

definition ds_union :: "InstrId list \<Rightarrow> DisjointSet \<Rightarrow> error + DisjointSet" where
  "ds_union items ds =
     (case items of
        first # x # xs \<Rightarrow> unionLoop first (x # xs) ds
      | _ \<Rightarrow> Inr ds)"

text \<open>\<open>buildSets\<close> walks the keys of \<open>parent\<close>; \<open>find\<close> of a key adds no key, so the
  walk is over the keys present at its start.  A group keeps its members in key order,
  the groups are in the order their roots were first met.\<close>

definition addToGroup :: "InstrId \<Rightarrow> InstrId \<Rightarrow> (InstrId, InstrId list) jsmap \<Rightarrow> (InstrId, InstrId list) jsmap" where
  "addToGroup root item groups =
     (let groups1 = (if \<not> map_has groups root then map_set root [] groups else groups)
      in map_set root ((case map_get groups1 root of None \<Rightarrow> [] | Some g \<Rightarrow> g) @ [item]) groups1)"

fun buildGroups :: "InstrId list \<Rightarrow> DisjointSet \<Rightarrow> (InstrId, InstrId list) jsmap
                    \<Rightarrow> error + (InstrId, InstrId list) jsmap" where
  "buildGroups [] ds groups = Inr groups"
| "buildGroups (item # rest) ds groups =
     (case ds_find ds item of
        Inl e \<Rightarrow> Inl e
      | Inr (ds1, root) \<Rightarrow> buildGroups rest ds1 (addToGroup root item groups))"

definition buildSets :: "DisjointSet \<Rightarrow> error + InstrId list list" where
  "buildSets ds =
     (case buildGroups (map fst (parent ds)) ds [] of
        Inl e \<Rightarrow> Inl e
      | Inr groups \<Rightarrow> Inr (filter (\<lambda>group. length group > 1) (map snd groups)))"

section \<open>CodeGen.ts: scope ranges and reactive instructions\<close>

record scope =
  scope_start :: InstrId
  scope_end :: InstrId

fun unionAll :: "FunctionBody \<Rightarrow> ValueInfos \<Rightarrow> DisjointSet \<Rightarrow> error + DisjointSet" where
  "unionAll [] valuesInfo ds = Inr ds"
| "unionAll ((id', _) # rest) valuesInfo ds =
     (case map_get valuesInfo id' of
        None \<Rightarrow> unionAll rest valuesInfo ds
      | Some info \<Rightarrow>
          (if shouldMemoize info
           then (case ds_union ((case instructions info of None \<Rightarrow> [] | Some is \<Rightarrow> is) @ [id']) ds of
                   Inl e \<Rightarrow> Inl e
                 | Inr ds' \<Rightarrow> unionAll rest valuesInfo ds')
           else unionAll rest valuesInfo ds))"

text \<open>\<open>Math.min(...set)\<close> and \<open>Math.max(...set)\<close>; every set that reaches them has two
  members or more.\<close>

definition rangeOf :: "InstrId list \<Rightarrow> scope" where
  "rangeOf s =
     (case s of
        [] \<Rightarrow> \<lparr>scope_start = 0, scope_end = 0\<rparr>
      | x # xs \<Rightarrow> \<lparr>scope_start = fold min xs x, scope_end = fold max xs x\<rparr>)"

fun mergeLoop :: "scope \<Rightarrow> scope list \<Rightarrow> scope list \<Rightarrow> scope list" where
  "mergeLoop previous [] mergedRanges = mergedRanges @ [previous]"
| "mergeLoop previous (r # rs) mergedRanges =
     (if scope_end previous \<ge> scope_start r
      then mergeLoop \<lparr>scope_start = scope_start previous,
                      scope_end = max (scope_end previous) (scope_end r)\<rparr> rs mergedRanges
      else mergeLoop r rs (mergedRanges @ [previous]))"

definition mergeRanges :: "InstrId list list \<Rightarrow> scope list" where
  "mergeRanges mutatingSets =
     (case sort_key scope_start (map rangeOf mutatingSets) of
        [] \<Rightarrow> []
      | r # rs \<Rightarrow> mergeLoop r rs [])"

definition getInstructionScopeRanges :: "FunctionBody \<Rightarrow> ValueInfos \<Rightarrow> error + scope list" where
  "getInstructionScopeRanges func valuesInfo =
     (case unionAll func valuesInfo emptyDisjointSet of
        Inl e \<Rightarrow> Inl e
      | Inr mutatingSetBuilder \<Rightarrow>
          (case buildSets mutatingSetBuilder of
             Inl e \<Rightarrow> Inl e
           | Inr mutatingSets \<Rightarrow>
               (if length mutatingSets = 0 then Inr [] else Inr (mergeRanges mutatingSets))))"

text \<open>\<open>for (let i = lo; i < hi; i++) { const instr = func.get(i); if (instr != null) ... }\<close>\<close>

definition plainRange :: "FunctionBody \<Rightarrow> InstrId \<Rightarrow> InstrId \<Rightarrow> ReactiveInstruction list" where
  "plainRange func lo hi =
     concat (map (\<lambda>i. case map_get func i of None \<Rightarrow> [] | Some instr \<Rightarrow> [PlainInstr instr i]) [lo..<hi])"

definition blockStep :: "FunctionBody \<Rightarrow> ValueInfos \<Rightarrow> InstrId \<Rightarrow> ReactiveBlock \<Rightarrow> ReactiveBlock" where
  "blockStep func valuesInfo i currBlock =
     (case map_get func i of
        None \<Rightarrow> currBlock
      | Some instr \<Rightarrow>
          (let ds = (case map_get valuesInfo i of
                       None \<Rightarrow> []
                     | Some info \<Rightarrow> (case dependencies info of None \<Rightarrow> [] | Some d \<Rightarrow> d))
           in \<lparr>instrs = map_set i instr (instrs currBlock),
               decls = set_add i (decls currBlock),
               deps = fold set_add ds (deps currBlock)\<rparr>))"

definition makeBlock :: "FunctionBody \<Rightarrow> ValueInfos \<Rightarrow> scope \<Rightarrow> ReactiveBlock" where
  "makeBlock func valuesInfo sc =
     fold (blockStep func valuesInfo) [scope_start sc..<Suc (scope_end sc)]
       \<lparr>instrs = [], decls = [], deps = []\<rparr>"

text \<open>The loop over the scopes, with \<open>startingInstrId\<close> and the list built so far.  The kind
  of \<open>func.get(scope.start)!\<close> is read only when the scope has one id.\<close>

fun scopeLoop :: "FunctionBody \<Rightarrow> ValueInfos \<Rightarrow> scope list \<Rightarrow> InstrId \<Rightarrow> ReactiveInstruction list
                  \<Rightarrow> error + (InstrId \<times> ReactiveInstruction list)" where
  "scopeLoop func valuesInfo [] startingInstrId hir = Inr (startingInstrId, hir)"
| "scopeLoop func valuesInfo (sc # rest) startingInstrId hir =
     (let hir1 = hir @ plainRange func startingInstrId (scope_start sc);
          next = scope_end sc + 1
      in if scope_start sc = scope_end sc
         then (case map_get func (scope_start sc) of
                 None \<Rightarrow> Inl TypeError
               | Some firstInstr \<Rightarrow>
                   (case firstInstr of
                      Declare _ _ \<Rightarrow>
                        scopeLoop func valuesInfo rest next (hir1 @ [PlainInstr firstInstr (scope_start sc)])
                    | _ \<Rightarrow>
                        scopeLoop func valuesInfo rest next (hir1 @ [Block (makeBlock func valuesInfo sc)])))
         else scopeLoop func valuesInfo rest next (hir1 @ [Block (makeBlock func valuesInfo sc)]))"

definition makeReactiveInstrsFrom :: "FunctionBody \<Rightarrow> ValueInfos \<Rightarrow> scope list
                                       \<Rightarrow> error + ReactiveInstruction list" where
  "makeReactiveInstrsFrom func valuesInfo scopes =
     (case scopeLoop func valuesInfo scopes 0 [] of
        Inl e \<Rightarrow> Inl e
      | Inr (startingInstrId, hir) \<Rightarrow> Inr (hir @ plainRange func startingInstrId (length func)))"

definition makeReactiveInstrs :: "FunctionBody \<Rightarrow> ValueInfos \<Rightarrow> error + ReactiveInstruction list" where
  "makeReactiveInstrs func valuesInfo =
     (case getInstructionScopeRanges func valuesInfo of
        Inl e \<Rightarrow> Inl e
      | Inr scopes \<Rightarrow> makeReactiveInstrsFrom func valuesInfo scopes)"

section \<open>CodeGen.ts: rebuilding expressions and emitting statements\<close>

text \<open>
  The builders of the host library (\<open>t.identifier\<close>, \<open>t.callExpression\<close>, ...) are the
  constructors of \<open>node\<close>.  \<open>instrToExpression\<close> follows operand references through the
  function body; the count of nested calls is bounded as for \<open>ds_find_rec\<close>, and reading the
  kind of a missing instruction is a \<open>TypeError\<close>.
\<close>

definition literalNode :: "lit_value \<Rightarrow> node" where
  "literalNode l =
     (case l of
        LitString s \<Rightarrow> StringLiteral s
      | LitNumber v \<Rightarrow> NumericLiteral v
      | LitBoolean b \<Rightarrow> BooleanLiteral b)"

fun instrToExpression :: "nat \<Rightarrow> Instruction \<Rightarrow> FunctionBody \<Rightarrow> error + node"
  and argsToExpressions :: "nat \<Rightarrow> Value list \<Rightarrow> FunctionBody \<Rightarrow> error + node list"
  and propsToExpressions :: "nat \<Rightarrow> (string \<times> Value) list \<Rightarrow> FunctionBody \<Rightarrow> error + node list"
where
  "instrToExpression 0 instr func = Inl RangeError"
| "instrToExpression (Suc fuel) (Call receiver property args) func =
     (case map_get func receiver of
        None \<Rightarrow> Inl TypeError
      | Some receiverInstr \<Rightarrow>
          (case instrToExpression fuel receiverInstr func of
             Inl e \<Rightarrow> Inl e
           | Inr receiverExpr \<Rightarrow>
               (let callee = (if property \<noteq> None \<and> property \<noteq> Some []
                              then MemberExpression receiverExpr (Identifier (the property)) False
                              else receiverExpr)
                in case argsToExpressions fuel args func of
                     Inl e \<Rightarrow> Inl e
                   | Inr argExprs \<Rightarrow> Inr (CallExpression callee argExprs))))"
| "instrToExpression (Suc fuel) (Object properties) func =
     (case propsToExpressions fuel properties func of
        Inl e \<Rightarrow> Inl e
      | Inr props \<Rightarrow> Inr (ObjectExpression props))"
| "instrToExpression (Suc fuel) (LoadConstant variableName) func = Inr (Identifier variableName)"
| "instrToExpression (Suc fuel) (ReadProperty object property) func =
     (case map_get func object of
        None \<Rightarrow> Inl TypeError
      | Some objectInstr \<Rightarrow>
          (case instrToExpression fuel objectInstr func of
             Inl e \<Rightarrow> Inl e
           | Inr obj \<Rightarrow>
               (case property of
                  PropString name \<Rightarrow> Inr (MemberExpression obj (Identifier name) False)
                | PropNumber v \<Rightarrow> Inr (MemberExpression obj (NumericLiteral v) True))))"
| "instrToExpression (Suc fuel) (Declare _ _) func = Inr (Identifier ''unknown'')"
| "instrToExpression (Suc fuel) (Param _) func = Inr (Identifier ''unknown'')"
| "instrToExpression (Suc fuel) (Return _) func = Inr (Identifier ''unknown'')"
| "argsToExpressions fuel [] func = Inr []"
| "argsToExpressions fuel (arg # rest) func =
     (case (case arg of
              LiteralValue l \<Rightarrow> Inr (literalNode l)
            | RValue v \<Rightarrow>
                (case map_get func v of
                   None \<Rightarrow> Inl TypeError
                 | Some argInstr \<Rightarrow> instrToExpression fuel argInstr func)) of
        Inl e \<Rightarrow> Inl e
      | Inr argExpr \<Rightarrow>
          (case argsToExpressions fuel rest func of
             Inl e \<Rightarrow> Inl e
           | Inr restExprs \<Rightarrow> Inr (argExpr # restExprs)))"
| "propsToExpressions fuel [] func = Inr []"
| "propsToExpressions fuel ((key, value) # rest) func =
     (case (case value of
              LiteralValue l \<Rightarrow> Inr (literalNode l)
            | RValue v \<Rightarrow>
                (case map_get func v of
                   None \<Rightarrow> Inl TypeError
                 | Some valueInstr \<Rightarrow> instrToExpression fuel valueInstr func)) of
        Inl e \<Rightarrow> Inl e
      | Inr valueExpr \<Rightarrow>
          (case propsToExpressions fuel rest func of
             Inl e \<Rightarrow> Inl e
           | Inr restProps \<Rightarrow> Inr (ObjectProperty (Identifier key) valueExpr # restProps)))"

definition getDependencyNames :: "InstrId list \<Rightarrow> FunctionBody \<Rightarrow> string list" where
  "getDependencyNames ds func =
     concat (map (\<lambda>dep. case map_get func dep of
                            Some (Param name) \<Rightarrow> [name]
                          | Some (Declare lhs _) \<Rightarrow> [lhs]
                          | _ \<Rightarrow> []) ds)"

definition pruneDeps :: "ReactiveInstruction \<Rightarrow> ReactiveInstruction" where
  "pruneDeps instr =
     (case instr of
        Block b \<Rightarrow> Block (b\<lparr>deps := filter (\<lambda>dep. \<not> map_has (instrs b) dep) (deps b)\<rparr>)
      | PlainInstr i n \<Rightarrow> PlainInstr i n)"

text \<open>The first member of the block whose \<open>info.get(id)?.shouldMemo\<close> is true.\<close>

fun findMainOperation :: "(InstrId, Instruction) jsmap \<Rightarrow> ValueInfos \<Rightarrow> (Instruction \<times> InstrId) option" where
  "findMainOperation [] info = None"
| "findMainOperation ((id', blockInstr) # rest) info =
     (case map_get info id' of
        None \<Rightarrow> findMainOperation rest info
      | Some instrInfo \<Rightarrow>
          (if shouldMemo instrInfo = Some True then Some (blockInstr, id')
           else findMainOperation rest info))"

text \<open>The sign that opens the log line of \<open>codegenJS\<close>, as the bytes the source file holds
  there (\<open>C3 A2 C5 93 E2 80 A6\<close>).\<close>

definition check_sign :: string where
  "check_sign = [char_of (0xC3::nat), char_of (0xA2::nat), char_of (0xC5::nat), char_of (0x93::nat),
                 char_of (0xE2::nat), char_of (0x80::nat), char_of (0xA6::nat)]"

definition useMemoCall :: "node \<Rightarrow> string list \<Rightarrow> node" where
  "useMemoCall computation depNames =
     CallExpression (Identifier ''useMemo'')
       [ArrowFunctionExpression [] computation, ArrayExpression (map Identifier depNames)]"

definition memoDeclaration :: "nat \<Rightarrow> node \<Rightarrow> string list \<Rightarrow> node" where
  "memoDeclaration memoIndex computation depNames =
     VariableDeclaration ''const''
       [VariableDeclarator (Identifier (''memoized'' @ string_of_nat memoIndex))
          (Some (useMemoCall computation depNames))]"

fun codegenLoop :: "FunctionBody \<Rightarrow> ValueInfos \<Rightarrow> ReactiveInstruction list \<Rightarrow> nat
                    \<Rightarrow> node list \<times> log_line list \<Rightarrow> error + (node list \<times> log_line list)" where
  "codegenLoop func info [] memoIndex out = Inr out"
| "codegenLoop func info (PlainInstr _ _ # rest) memoIndex out = codegenLoop func info rest memoIndex out"
| "codegenLoop func info (Block b # rest) memoIndex out =
     (if length (deps b) > 0
      then (case findMainOperation (instrs b) info of
              None \<Rightarrow> codegenLoop func info rest memoIndex out
            | Some (mainOperation, mainOperationId) \<Rightarrow>
                (let depNames = getDependencyNames (deps b) func
                 in case instrToExpression (Suc (length func)) mainOperation func of
                      Inl e \<Rightarrow> Inl e
                    | Inr computation \<Rightarrow>
                        codegenLoop func info rest (memoIndex + 1)
                          (fst out @ [memoDeclaration memoIndex computation depNames],
                           snd out @ [TextLine (check_sign
                                        @ '' Generated useMemo for expensive operation with dependencies: [''
                                        @ join_comma depNames @ '']'')])))
      else codegenLoop func info rest memoIndex out)"

definition codegenJS :: "FunctionBody \<Rightarrow> ValueInfos \<Rightarrow> error + (node list \<times> log_line list)" where
  "codegenJS func info =
     (case makeReactiveInstrs func info of
        Inl e \<Rightarrow> Inl e
      | Inr reactiveInstrs \<Rightarrow> codegenLoop func info (map pruneDeps reactiveInstrs) 0 ([], []))"

section \<open>index.ts: the statement-level rewrite and the visitor\<close>

text \<open>The identifiers of an expression, in the order they are met; \<open>[...new Set(xs)]\<close>
  keeps the first occurrence of each.\<close>

fun traverse :: "node \<Rightarrow> string list" where
  "traverse (Identifier name) = [name]"
| "traverse (MemberExpression object property computed) =
     traverse object @ (if computed then traverse property else [])"
| "traverse (CallExpression callee args) = traverse callee @ concat (map traverse args)"
| "traverse (ArrowFunctionExpression _ (BlockStatement stmts)) = concat (map traverse stmts)"
| "traverse (ArrowFunctionExpression _ body) = traverse body"
| "traverse (FunctionExpression _ (BlockStatement stmts)) = concat (map traverse stmts)"
| "traverse (FunctionExpression _ body) = traverse body"
| "traverse (ObjectExpression properties) =
     concat (map (\<lambda>prop. case prop of
                            ObjectProperty _ value \<Rightarrow> traverse value
                          | SpreadElement argument \<Rightarrow> traverse argument
                          | _ \<Rightarrow> []) properties)"
| "traverse (BinaryExpression _ left right) = traverse left @ traverse right"
| "traverse (ReturnStatement (Some argument)) = traverse argument"
| "traverse _ = []"

definition extractIdentifiers :: "node \<Rightarrow> string list" where
  "extractIdentifiers n = fold set_add (traverse n) []"

definition isExpensiveInit :: "node option \<Rightarrow> bool" where
  "isExpensiveInit init =
     (case init of
        Some (CallExpression (MemberExpression _ (Identifier name) _) _) \<Rightarrow> name \<in> set expensiveMethods
      | _ \<Rightarrow> False)"

definition hasExpensiveOperation :: "node list \<Rightarrow> bool" where
  "hasExpensiveOperation declarations =
     list_ex (\<lambda>decl. case decl of VariableDeclarator _ init \<Rightarrow> isExpensiveInit init | _ \<Rightarrow> False)
       declarations"

definition excludeList :: "string list" where
  "excludeList = [''item'', ''Math'', ''console'', ''window'', ''document'']"

definition rewriteDeclarator :: "node \<Rightarrow> node" where
  "rewriteDeclarator decl =
     (case decl of
        VariableDeclarator id' init \<Rightarrow>
          (if isExpensiveInit init
           then VariableDeclarator id'
                  (Some (useMemoCall (the init)
                           (filter (\<lambda>i. i \<notin> set excludeList) (extractIdentifiers (the init)))))
           else decl)
      | _ \<Rightarrow> decl)"

definition rewriteStatement :: "node \<Rightarrow> node" where
  "rewriteStatement stmt =
     (case stmt of
        VariableDeclaration kind declarations \<Rightarrow>
          (if hasExpensiveOperation declarations
           then VariableDeclaration kind (map rewriteDeclarator declarations)
           else stmt)
      | _ \<Rightarrow> stmt)"

definition statementRewritten :: "node \<Rightarrow> bool" where
  "statementRewritten stmt =
     (case stmt of VariableDeclaration _ declarations \<Rightarrow> hasExpensiveOperation declarations | _ \<Rightarrow> False)"

text \<open>
  The \<open>FunctionDeclaration\<close> visitor, steps 1 to 4 and 6: the new body of the function
  (the generated declarations, then the statements, rewritten in place) and the flag
  \<open>hasAnyOptimizations\<close>.  The import list of the enclosing program (step 5) and the
  visitor's own console lines are outside the model.
\<close>

record compiled =
  body_out :: "node list"
  hasAnyOptimizations :: bool

definition compileFunction :: "func_decl \<Rightarrow> error + compiled" where
  "compileFunction fd =
     (case readInstructions fd of
        Inl e \<Rightarrow> Inl e
      | Inr (instrsMap, _) \<Rightarrow>
          (case analyze instrsMap of
             Inl e \<Rightarrow> Inl e
           | Inr info \<Rightarrow>
               (case codegenJS instrsMap info of
                  Inl e \<Rightarrow> Inl e
                | Inr (generatedBody, _) \<Rightarrow>
                    (case fd of
                       FunctionDeclaration _ _ statements \<Rightarrow>
                         Inr \<lparr>body_out = generatedBody @ map rewriteStatement statements,
                              hasAnyOptimizations =
                                (length generatedBody > 0 \<or> list_ex statementRewritten statements)\<rparr>))))"

section \<open>Definitions of the properties\<close>

definition declares :: "Instruction \<Rightarrow> string \<Rightarrow> bool" where
  "declares instr name = (case instr of Declare lhs _ \<Rightarrow> lhs = name | Param n \<Rightarrow> n = name | _ \<Rightarrow> False)"

definition hookSeed :: "FunctionBody \<Rightarrow> Instruction \<Rightarrow> bool" where
  "hookSeed func instr =
     (\<exists>receiver property args name.
        instr = Call receiver property args \<and> map_of func receiver = Some (LoadConstant name)
        \<and> take 3 name = ''use'')"

definition mayChangeSpec :: "FunctionBody \<Rightarrow> InstrId set" where
  "mayChangeSpec func =
     fold (\<lambda>(i, instr) S.
             if (\<exists>name. instr = Param name) \<or> hookSeed func instr \<or> (\<exists>u \<in> set (eachValue instr). u \<in> S)
             then insert i S else S) func {}"

definition info_core :: "InstrId \<times> ValueInfo \<Rightarrow> InstrId \<times> InstrId list option \<times> bool option" where
  "info_core = (\<lambda>(k, info). (k, dependencies info, shouldMemo info))"

definition step1_info :: "FunctionBody \<Rightarrow> InstrId list \<Rightarrow> InstrId \<times> Instruction \<Rightarrow> InstrId \<times> ValueInfo" where
  "step1_info func mc = (\<lambda>(i, instr).
     (i, \<lparr>dependencies = Some (collectDependencies mc instr), instructions = None,
          shouldMemo = Some (isExpensiveOperation instr func \<and> collectDependencies mc instr \<noteq> [])\<rparr>))"

definition dense :: "FunctionBody \<Rightarrow> bool" where
  "dense func = (map fst func = [0..<length func])"

definition operandsSmaller :: "FunctionBody \<Rightarrow> bool" where
  "operandsSmaller func = (\<forall>(i, instr) \<in> set func. \<forall>u \<in> set (eachValue instr). u < i)"

definition isStatement :: "node \<Rightarrow> bool" where
  "isStatement n =
     (case n of
        VariableDeclaration _ _ \<Rightarrow> True
      | ExpressionStatement _ \<Rightarrow> True
      | ReturnStatement _ \<Rightarrow> True
      | BlockStatement _ \<Rightarrow> True
      | _ \<Rightarrow> False)"

lemma size_list_member [termination_simp]: "x \<in> set xs \<Longrightarrow> size x < Suc (size_list size xs)"
  by (induction xs) auto

declare asMemberExpression_size [termination_simp]

declare asObjectProperty_size [termination_simp]

declare asVariableDeclarator_size [termination_simp]

fun operandsAreExpressions :: "node \<Rightarrow> bool" where
  "operandsAreExpressions (MemberExpression object _ _) =
     (\<not> isStatement object \<and> operandsAreExpressions object)"
| "operandsAreExpressions (ObjectExpression properties) =
     (\<forall>prop \<in> set properties.
        case asObjectProperty prop of
          None \<Rightarrow> True
        | Some kv \<Rightarrow> \<not> isStatement (snd kv) \<and> operandsAreExpressions (snd kv))"
| "operandsAreExpressions (CallExpression callee args) =
     (\<not> isStatement callee \<and> operandsAreExpressions callee \<and>
      (\<forall>arg \<in> set args. \<not> isStatement arg \<and> operandsAreExpressions arg))"
| "operandsAreExpressions (ReturnStatement argument) =
     (case argument of None \<Rightarrow> True | Some a \<Rightarrow> \<not> isStatement a \<and> operandsAreExpressions a)"
| "operandsAreExpressions (ExpressionStatement expression) =
     (\<not> isStatement expression \<and> operandsAreExpressions expression)"
| "operandsAreExpressions (VariableDeclaration _ declarations) =
     (\<forall>decl \<in> set declarations.
        case asVariableDeclarator decl of
          None \<Rightarrow> True
        | Some d \<Rightarrow> (case snd d of
                       None \<Rightarrow> True
                     | Some init \<Rightarrow> \<not> isStatement init \<and> operandsAreExpressions init))"
| "operandsAreExpressions _ = True"

definition lowered_ok :: "FunctionBody \<Rightarrow> bool" where
  "lowered_ok func = (dense func \<and> operandsSmaller func)"

definition rvalues :: "Value list \<Rightarrow> InstrId list" where
  "rvalues vs = concat (map (\<lambda>arg. case arg of RValue v \<Rightarrow> [v] | LiteralValue _ \<Rightarrow> []) vs)"

definition step_ok :: "lstate \<Rightarrow> lstate \<Rightarrow> bool" where
  "step_ok st st' = (lowered_ok (fst st') \<and> length (fst st) \<le> length (fst st'))"

definition props_ok :: "node list \<Rightarrow> bool" where
  "props_ok props = (\<forall>prop \<in> set props.
        case asObjectProperty prop of
          None \<Rightarrow> True
        | Some kv \<Rightarrow> \<not> isStatement (snd kv) \<and> operandsAreExpressions (snd kv))"

definition args_ok :: "node list \<Rightarrow> bool" where
  "args_ok args = (\<forall>arg \<in> set args. \<not> isStatement arg \<and> operandsAreExpressions arg)"

definition decls_ok :: "node list \<Rightarrow> bool" where
  "decls_ok declarations = (\<forall>decl \<in> set declarations.
        case asVariableDeclarator decl of
          None \<Rightarrow> True
        | Some d \<Rightarrow> (case snd d of
                       None \<Rightarrow> True
                     | Some init \<Rightarrow> \<not> isStatement init \<and> operandsAreExpressions init))"

definition below :: "InstrId list \<Rightarrow> lstate \<Rightarrow> bool" where
  "below us st = (\<forall>u \<in> set us. u < length (fst st))"

definition unmodelled :: "node \<Rightarrow> bool" where
  "unmodelled n =
     (case n of
        ObjectProperty _ _ \<Rightarrow> True
      | SpreadElement _ \<Rightarrow> True
      | ArrayExpression _ \<Rightarrow> True
      | BlockStatement _ \<Rightarrow> True
      | BinaryExpression _ _ _ \<Rightarrow> True
      | VariableDeclarator _ _ \<Rightarrow> True
      | ArrayPattern _ \<Rightarrow> True
      | ObjectPattern _ \<Rightarrow> True
      | OtherNode _ \<Rightarrow> True
      | _ \<Rightarrow> False)"

definition scenarioA :: func_decl where
  "scenarioA = FunctionDeclaration (Some ''F'') [Identifier ''a'', Identifier ''b'']
     [VariableDeclaration ''const''
        [VariableDeclarator (Identifier ''c'')
           (Some (CallExpression (MemberExpression (Identifier ''a'') (Identifier ''map'') False)
                    [ArrowFunctionExpression [Identifier ''x'']
                       (BinaryExpression ''*'' (Identifier ''x'') (Identifier ''b''))]))],
      ReturnStatement (Some (Identifier ''c''))]"

definition scenarioA_ir :: FunctionBody where
  "scenarioA_ir = [(0, Param ''a''), (1, Param ''b''), (2, LoadConstant ''function''),
                   (3, Call 0 (Some ''map'') [RValue 2]), (4, Declare ''c'' 3), (5, Return (Some 4))]"

definition shadowing :: func_decl where
  "shadowing = FunctionDeclaration (Some ''f'') [Identifier ''a'']
     [VariableDeclaration ''var'' [VariableDeclarator (Identifier ''a'') (Some (NumericLiteral 1))],
      ReturnStatement (Some (Identifier ''a''))]"

text \<open>
  The shapes that make the lowering throw, read off the syntax tree alone.  The receiver
  of a call is the object of a member callee, or the callee itself.
\<close>

definition calleeReceiver :: "node \<Rightarrow> node" where
  "calleeReceiver callee = (case asMemberExpression callee of Some member \<Rightarrow> fst member | None \<Rightarrow> callee)"

lemma calleeReceiver_size [termination_simp]:
  "size (calleeReceiver callee) < Suc (k + size callee)"
  by (cases callee) (simp_all add: calleeReceiver_def asMemberExpression_def)







text \<open>
  The placeholder of a node, its warning line, and what it means that a lowered function
  holds them: the placeholder instruction is in the body under some id, and the log holds
  the warning line directly followed by the line of that instruction.
\<close>

definition placeholder :: "node \<Rightarrow> Instruction" where
  "placeholder n = LoadConstant (''unsupported_'' @ node_type n)"

definition warningLine :: "node \<Rightarrow> log_line" where
  "warningLine n = TextLine (warning_sign @ '' Skipping unsupported instruction: '' @ node_type n)"

fun adjacent :: "'a \<Rightarrow> 'a \<Rightarrow> 'a list \<Rightarrow> bool" where
  "adjacent a b (x # y # rest) = ((x = a \<and> y = b) \<or> adjacent a b (y # rest))"
| "adjacent a b _ = False"

definition hasPlaceholder :: "node \<Rightarrow> lstate \<Rightarrow> bool" where
  "hasPlaceholder n st =
     list_ex (\<lambda>entry. snd entry = placeholder n
                \<and> adjacent (warningLine n) (InstrLine (placeholder n) (fst entry)) (snd st))
       (fst st)"








definition ext :: "lstate \<Rightarrow> lstate \<Rightarrow> bool" where
  "ext st st' = (dense (fst st') \<and> (\<exists>fnew. fst st' = fst st @ fnew) \<and> (\<exists>lnew. snd st' = snd st @ lnew))"

definition placeholders :: "node list \<Rightarrow> lstate \<Rightarrow> bool" where
  "placeholders ns st = list_all (\<lambda>n. unmodelled n \<longrightarrow> hasPlaceholder n st) ns"

definition noSeed :: "FunctionBody \<Rightarrow> InstrId \<times> Instruction \<Rightarrow> bool" where
  "noSeed func = (\<lambda>(i, instr). \<not> isParam instr \<and> \<not> isHookCall instr func)"

definition emptyInfo :: "InstrId \<times> ValueInfo \<Rightarrow> bool" where
  "emptyInfo = (\<lambda>(k, info). dependencies info = Some [] \<and> shouldMemo info = Some False)"

definition globalsOnly :: func_decl where
  "globalsOnly = FunctionDeclaration (Some ''G'') []
     [VariableDeclaration ''const''
        [VariableDeclarator (Identifier ''c'')
           (Some (CallExpression (MemberExpression (Identifier ''xs'') (Identifier ''map'') False)
                    [Identifier ''f'']))],
      ReturnStatement (Some (Identifier ''c''))]"

definition globalsOnly_ir :: FunctionBody where
  "globalsOnly_ir = [(0, LoadConstant ''xs''), (1, LoadConstant ''f''),
                     (2, Call 0 (Some ''map'') [RValue 1]), (3, Declare ''c'' 2), (4, Return (Some 3))]"

definition constantOnly :: func_decl where
  "constantOnly = FunctionDeclaration (Some ''H'') [] [ReturnStatement (Some (Identifier ''k''))]"

definition scenarioA_infos :: ValueInfos where
  "scenarioA_infos =
     [(0, \<lparr>dependencies = Some [], instructions = None, shouldMemo = Some False\<rparr>),
      (1, \<lparr>dependencies = Some [], instructions = None, shouldMemo = Some False\<rparr>),
      (2, \<lparr>dependencies = Some [], instructions = None, shouldMemo = Some False\<rparr>),
      (3, \<lparr>dependencies = Some [0], instructions = None, shouldMemo = Some True\<rparr>),
      (4, \<lparr>dependencies = Some [3], instructions = None, shouldMemo = Some False\<rparr>),
      (5, \<lparr>dependencies = Some [4], instructions = None, shouldMemo = Some False\<rparr>)]"

definition mapCall :: node where
  "mapCall = CallExpression (MemberExpression (Identifier ''a'') (Identifier ''map'') False)
               [ArrowFunctionExpression [Identifier ''x'']
                  (BinaryExpression ''*'' (Identifier ''x'') (Identifier ''b''))]"





definition blockExample :: FunctionBody where
  "blockExample = [(0, Param ''a''), (1, Object [(''k'', RValue 0)]), (2, LoadConstant ''f''),
                   (3, Call 2 None [RValue 1]), (4, Return (Some 3))]"

definition blockExample_infos :: ValueInfos where
  "blockExample_infos =
     [(0, \<lparr>dependencies = Some [], instructions = None, shouldMemo = Some False\<rparr>),
      (1, \<lparr>dependencies = Some [0], instructions = Some [3], shouldMemo = Some True\<rparr>),
      (2, \<lparr>dependencies = Some [], instructions = None, shouldMemo = Some False\<rparr>),
      (3, \<lparr>dependencies = Some [1], instructions = None, shouldMemo = Some False\<rparr>),
      (4, \<lparr>dependencies = Some [3], instructions = None, shouldMemo = Some False\<rparr>)]"

definition blockExample_reactive :: "ReactiveInstruction list" where
  "blockExample_reactive =
     [PlainInstr (Param ''a'') 0,
      Block \<lparr>instrs = [(1, Object [(''k'', RValue 0)]), (2, LoadConstant ''f''), (3, Call 2 None [RValue 1])],
             decls = [1, 2, 3], deps = [0, 1]\<rparr>,
      PlainInstr (Return (Some 3)) 4]"


definition ds_keys :: "DisjointSet \<Rightarrow> InstrId set" where
  "ds_keys ds = set (map fst (parent ds))"

text \<open>
  The invariant of the disjoint-set structure, against a representative function \<open>rep\<close>:
  parent links stay among the keys and inside one class, ranks grow strictly along them,
  the representative of a key is a root that is its own representative, and an item that
  is not a key is alone in its class and has no rank.
\<close>

definition ds_rel :: "DisjointSet \<Rightarrow> (InstrId \<Rightarrow> InstrId) \<Rightarrow> bool" where
  "ds_rel ds rep \<longleftrightarrow>
     distinct (map fst (parent ds)) \<and>
     (\<forall>k p. map_of (parent ds) k = Some p \<longrightarrow>
        p \<in> ds_keys ds \<and> rep p = rep k \<and> (p = k \<longrightarrow> rep k = k) \<and>
        (p \<noteq> k \<longrightarrow> rank_of ds k < rank_of ds p)) \<and>
     (\<forall>k \<in> ds_keys ds. map_of (parent ds) (rep k) = Some (rep k) \<and> rank_of ds k \<le> rank_of ds (rep k)) \<and>
     (\<forall>k. k \<notin> ds_keys ds \<longrightarrow> rep k = k \<and> rank_of ds k = 0)"

definition above :: "DisjointSet \<Rightarrow> InstrId \<Rightarrow> InstrId set" where
  "above ds item = {j \<in> ds_keys ds. rank_of ds item < rank_of ds j}"

definition ker :: "(InstrId \<Rightarrow> InstrId) \<Rightarrow> (InstrId \<times> InstrId) set" where
  "ker rep = {(x, y). rep x = rep y}"

definition equivalence :: "(InstrId \<times> InstrId) set \<Rightarrow> bool" where
  "equivalence E \<longleftrightarrow>
     (\<forall>x. (x, x) \<in> E) \<and> (\<forall>x y. (x, y) \<in> E \<longrightarrow> (y, x) \<in> E) \<and>
     (\<forall>x y z. (x, y) \<in> E \<longrightarrow> (y, z) \<in> E \<longrightarrow> (x, z) \<in> E)"

text \<open>The lists handed to \<open>union\<close>, in order: for every instruction to memoize, its mutators
  followed by its own id.\<close>

definition unionRequests :: "FunctionBody \<Rightarrow> ValueInfos \<Rightarrow> InstrId list list" where
  "unionRequests func valuesInfo =
     concat (map (\<lambda>(i, _). case map_get valuesInfo i of
                               None \<Rightarrow> []
                             | Some info \<Rightarrow>
                                 if shouldMemoize info
                                 then [(case instructions info of None \<Rightarrow> [] | Some ms \<Rightarrow> ms) @ [i]]
                                 else []) func)"

definition grows :: "(InstrId \<Rightarrow> InstrId) \<Rightarrow> (InstrId \<Rightarrow> InstrId) \<Rightarrow> (InstrId \<times> InstrId) set \<Rightarrow> bool" where
  "grows rep rep' new \<longleftrightarrow>
     ker rep \<subseteq> ker rep' \<and> new \<subseteq> ker rep' \<and>
     (\<forall>E. equivalence E \<longrightarrow> ker rep \<subseteq> E \<longrightarrow> new \<subseteq> E \<longrightarrow> ker rep' \<subseteq> E)"

text \<open>What one call of \<open>union\<close> asks for: the first item together with every later one; and
  the keys it creates (none when the list has fewer than two items).\<close>

definition pairsOf :: "InstrId list \<Rightarrow> (InstrId \<times> InstrId) set" where
  "pairsOf items = (case items of [] \<Rightarrow> {} | first # rest \<Rightarrow> (\<lambda>x. (first, x)) ` set rest)"

definition keysOf :: "InstrId list \<Rightarrow> InstrId set" where
  "keysOf items = (if length items < 2 then {} else set items)"

definition requestPairs :: "InstrId list list \<Rightarrow> (InstrId \<times> InstrId) set" where
  "requestPairs reqs = (\<Union>items \<in> set reqs. pairsOf items)"

definition requestKeys :: "InstrId list list \<Rightarrow> InstrId set" where
  "requestKeys reqs = (\<Union>items \<in> set reqs. keysOf items)"

fun unionEach :: "InstrId list list \<Rightarrow> DisjointSet \<Rightarrow> error + DisjointSet" where
  "unionEach [] ds = Inr ds"
| "unionEach (items # rest) ds =
     (case ds_union items ds of Inl e \<Rightarrow> Inl e | Inr ds' \<Rightarrow> unionEach rest ds')"

text \<open>\<open>buildSets\<close>: the group of a root is the list of the keys it represents, in key order.\<close>

definition groupOf :: "(InstrId \<Rightarrow> InstrId) \<Rightarrow> InstrId list \<Rightarrow> InstrId \<Rightarrow> InstrId list" where
  "groupOf rep items r = filter (\<lambda>k. rep k = r) items"

definition groups_rel :: "(InstrId \<Rightarrow> InstrId) \<Rightarrow> InstrId list \<Rightarrow> (InstrId, InstrId list) jsmap \<Rightarrow> bool" where
  "groups_rel rep items groups \<longleftrightarrow>
     distinct (map fst groups) \<and> set (map fst groups) = rep ` set items \<and>
     (\<forall>(r, g) \<in> set groups. g = groupOf rep items r)"

text \<open>A scope that holds two ids or more, and a list of scopes in ascending order without
  overlap or contact.\<close>

definition proper :: "scope \<Rightarrow> bool" where
  "proper sc = (scope_start sc < scope_end sc)"

definition apart :: "scope \<Rightarrow> scope \<Rightarrow> bool" where
  "apart a b = (scope_end a < scope_start b)"

definition ascending :: "scope list \<Rightarrow> bool" where
  "ascending scs = (sorted_wrt apart scs \<and> list_all proper scs)"

text \<open>
  The ids a reactive instruction stands for, in order: its own id for a pass-through
  instruction, the keys of \<open>instrs\<close> for a block; and the ids of a whole sequence.  A
  reactive instruction is \<open>fromBody\<close> when every instruction it carries is the one the
  function body holds under that id.
\<close>

fun idsOf :: "ReactiveInstruction \<Rightarrow> InstrId list" where
  "idsOf (Block b) = map fst (instrs b)"
| "idsOf (PlainInstr instr i) = [i]"

definition hirIds :: "ReactiveInstruction list \<Rightarrow> InstrId list" where
  "hirIds hir = concat (map idsOf hir)"

fun fromBody :: "FunctionBody \<Rightarrow> ReactiveInstruction \<Rightarrow> bool" where
  "fromBody func (Block b) = list_all (\<lambda>entry. map_get func (fst entry) = Some (snd entry)) (instrs b)"
| "fromBody func (PlainInstr instr i) = (map_get func i = Some instr)"

definition present :: "FunctionBody \<Rightarrow> InstrId \<Rightarrow> bool" where
  "present func i = (map_get func i \<noteq> None)"






text \<open>
  What the partitioner is asked to put together: every instruction to memoize with each of
  its mutators.  \<open>memoEquiv\<close> is the least equivalence that does so, and \<open>classOf\<close> the class
  of an id.
\<close>

definition mutatorsOf :: "ValueInfos \<Rightarrow> InstrId \<Rightarrow> InstrId list" where
  "mutatorsOf valuesInfo i =
     (case map_get valuesInfo i of
        None \<Rightarrow> []
      | Some info \<Rightarrow> (case instructions info of None \<Rightarrow> [] | Some ms \<Rightarrow> ms))"

definition memoized :: "ValueInfos \<Rightarrow> InstrId \<Rightarrow> bool" where
  "memoized valuesInfo i =
     (case map_get valuesInfo i of None \<Rightarrow> False | Some info \<Rightarrow> shouldMemoize info)"

definition memoPairs :: "FunctionBody \<Rightarrow> ValueInfos \<Rightarrow> (InstrId \<times> InstrId) set" where
  "memoPairs func valuesInfo =
     {(i, m). i \<in> fst ` set func \<and> memoized valuesInfo i \<and> m \<in> set (mutatorsOf valuesInfo i)}"

definition memoEquiv :: "FunctionBody \<Rightarrow> ValueInfos \<Rightarrow> (InstrId \<times> InstrId) set" where
  "memoEquiv func valuesInfo = \<Inter> {E. equivalence E \<and> memoPairs func valuesInfo \<subseteq> E}"

definition classOf :: "(InstrId \<times> InstrId) set \<Rightarrow> InstrId \<Rightarrow> InstrId set" where
  "classOf E x = {y. (x, y) \<in> E}"

text \<open>
  The interval merge, stated on its result: the spans are in ascending order and apart;
  every range lies within a span; and every span starts where a range starts, ends where a
  range ends, and each step \<open>k, k + 1\<close> inside it lies inside one range, so that the ranges of
  a span hang together by overlap or contact and no span can be split.
\<close>

definition within :: "scope \<Rightarrow> scope \<Rightarrow> bool" where
  "within r sp = (scope_start sp \<le> scope_start r \<and> scope_end r \<le> scope_end sp)"

definition stepCovered :: "scope list \<Rightarrow> nat \<Rightarrow> bool" where
  "stepCovered ranges k = list_ex (\<lambda>r. scope_start r \<le> k \<and> k < scope_end r) ranges"

definition spanOf :: "scope list \<Rightarrow> scope \<Rightarrow> bool" where
  "spanOf ranges sp =
     (list_ex (\<lambda>r. scope_start r = scope_start sp) ranges \<and>
      list_ex (\<lambda>r. scope_end r = scope_end sp) ranges \<and>
      list_all (stepCovered ranges) [scope_start sp..<scope_end sp])"

definition merged :: "scope list \<Rightarrow> scope list \<Rightarrow> bool" where
  "merged ranges spans =
     (sorted_wrt apart spans \<and>
      list_all (\<lambda>r. list_ex (within r) spans) ranges \<and>
      list_all (spanOf ranges) spans)"

text \<open>A body with a declaration, for the scope of one id.\<close>

definition declExample :: FunctionBody where
  "declExample = [(0, Param ''a''), (1, LoadConstant ''1''), (2, Declare ''c'' 1)]"

section \<open>Properties\<close>

text \<open>
  Claim C5 (the part that fails).  The call \<open>Math.sqrt(4)\<close> lowers to a \<open>Call\<close> whose receiver
  is the constant \<open>Math\<close> and whose property is \<open>sqrt\<close>; \<open>isExpensiveOperation\<close> returns
  from the property branch and answers false, although the receiver's name contains
  \<open>Math\<close>.  The claim says such a call is classified expensive.
\<close>

theorem isExpensiveOperation_math_sqrt:
  "lowerBabelInstr
     (CallExpression (MemberExpression (Identifier ''Math'') (Identifier ''sqrt'') False)
        [NumericLiteral 4]) ([], [])
   = Inr (([(0, LoadConstant ''Math''), (1, Call 0 (Some ''sqrt'') [LiteralValue (LitNumber 4)])],
           [InstrLine (LoadConstant ''Math'') 0,
            InstrLine (Call 0 (Some ''sqrt'') [LiteralValue (LitNumber 4)]) 1]), 1)
   \<and> isExpensiveOperation (Call 0 (Some ''sqrt'') [LiteralValue (LitNumber 4)])
         [(0, LoadConstant ''Math''), (1, Call 0 (Some ''sqrt'') [LiteralValue (LitNumber 4)])] = False
   \<and> includes_str ''Math'' (split_dot_head ''Math.sqrt'')"
  by (simp add: isExpensiveOperation_def expensiveMethods_def emit_def assertsValid_def
        isIdentifier_def identifier_name_def literalValue_def includes_str_def split_dot_head_def
        asMemberExpression_def)

lemma getDeclaration_find:
  "getDeclaration func name = map_option fst (find (\<lambda>(i, instr). declares instr name) func)"
proof (induction func)
  case Nil
  then show ?case by simp
next
  case (Cons x xs)
  obtain i instr where x: "x = (i, instr)" by (cases x)
  show ?case
    by (cases instr) (simp_all add: declares_def Cons.IH x)
qed

text \<open>
  Claim C6, amended.  Lowering a bare identifier returns the id of the first entry, in
  insertion order, that is a \<open>Declare\<close> or a \<open>Param\<close> carrying the name
  (first declaration wins), and leaves the function body and the log unchanged; if no entry
  carries the name, a \<open>LoadConstant\<close> placeholder is emitted under the next id, logged, and
  that id is returned.
\<close>

theorem lower_identifier_first_declaration:
  "lowerBabelInstr (Identifier name) (func, log) =
     (case find (\<lambda>(i, instr). declares instr name) func of
        Some (d, _) \<Rightarrow> Inr ((func, log), d)
      | None \<Rightarrow> Inr ((map_set (length func) (LoadConstant name) func,
                       log @ [InstrLine (LoadConstant name) (length func)]), length func))"
  by (simp add: getDeclaration_find emit_def Let_def split: option.splits)

lemma set_set_add [simp]: "set (set_add x xs) = insert x (set xs)"
  by (auto simp: set_add_def)

lemma fold_mark_set:
  "set (fold (\<lambda>used mc. if used \<in> set mc then set_add i mc else mc) us mc)
   = (if \<exists>u \<in> set us. u \<in> set mc then insert i (set mc) else set mc)"
proof (induction us arbitrary: mc)
  case Nil
  then show ?case by simp
next
  case (Cons u us)
  show ?case
    by (auto simp: Cons.IH)
qed

lemma isParam_iff: "isParam instr \<longleftrightarrow> (\<exists>name. instr = Param name)"
  by (cases instr) (simp_all add: isParam_def)

lemma isHookCall_iff: "isHookCall instr func \<longleftrightarrow> hookSeed func instr"
  by (cases instr)
     (auto simp: isHookCall_def hookSeed_def map_get_def startsWith_def numeral_3_eq_3
           split: option.splits Instruction.splits)

lemma mayChange_fold_spec:
  "set (fold (mayChangeStep func) xs mc)
   = fold (\<lambda>(i, instr) S.
             if (\<exists>name. instr = Param name) \<or> hookSeed func instr \<or> (\<exists>u \<in> set (eachValue instr). u \<in> S)
             then insert i S else S) xs (set mc)"
proof (induction xs arbitrary: mc)
  case Nil
  then show ?case by simp
next
  case (Cons x xs)
  obtain i instr where x: "x = (i, instr)" by (cases x)
  have "set (mayChangeStep func x mc)
        = (if (\<exists>name. instr = Param name) \<or> hookSeed func instr \<or> (\<exists>u \<in> set (eachValue instr). u \<in> set mc)
           then insert i (set mc) else set mc)"
    by (simp add: x mayChangeStep_def fold_mark_set isParam_iff isHookCall_iff)
  then show ?case
    by (simp add: Cons.IH x)
qed

lemma getValuesThatMayChange_spec: "set (getValuesThatMayChange func) = mayChangeSpec func"
  by (simp add: getValuesThatMayChange_def mayChangeSpec_def mayChange_fold_spec)

lemma collectDependencies_set:
  "set (collectDependencies mc instr) = {u \<in> set (eachValue instr). u \<in> set mc}"
proof -
  have "set (fold (\<lambda>used ds. if used \<in> set mc then set_add used ds else ds) us acc)
        = set acc \<union> {u \<in> set us. u \<in> set mc}" for us acc
    by (induction us arbitrary: acc) auto
  then show ?thesis
    by (simp add: collectDependencies_def)
qed

lemma map_set_fresh: "k \<notin> fst ` set m \<Longrightarrow> map_set k v m = m @ [(k, v)]"
  by (induction m) auto

lemma analyzeStep1_fold:
  "distinct (map fst xs) \<Longrightarrow> fst ` set acc \<inter> fst ` set xs = {} \<Longrightarrow>
   fold (analyzeStep1 func mc) xs acc = acc @ map (step1_info func mc) xs"
proof (induction xs arbitrary: acc)
  case Nil
  then show ?case by simp
next
  case (Cons x xs)
  obtain i instr where x: "x = (i, instr)" by (cases x)
  have fresh: "i \<notin> fst ` set acc"
    using Cons.prems(2) by (auto simp: x)
  have step: "analyzeStep1 func mc x acc = acc @ [step1_info func mc x]"
    by (simp add: x analyzeStep1_def step1_info_def Let_def map_set_fresh [OF fresh])
  have "fst ` set (acc @ [step1_info func mc x]) \<inter> fst ` set xs = {}"
    using Cons.prems by (auto simp: x step1_info_def)
  with Cons.IH [of "acc @ [step1_info func mc x]"] Cons.prems(1) show ?case
    by (simp add: step)
qed

lemma info_core_map_set:
  "map_of r used = Some info \<Longrightarrow>
   map info_core (map_set used (info\<lparr>instructions := x\<rparr>) r) = map info_core r"
  by (induction r) (auto simp: info_core_def)

lemma addMutator_ok:
  "used \<in> fst ` set r \<Longrightarrow> \<exists>r'. addMutator used i r = Inr r' \<and> map info_core r' = map info_core r"
proof -
  assume "used \<in> fst ` set r"
  then obtain info where "map_of r used = Some info"
    by (metis domD dom_map_of_conv_image_fst)
  then show ?thesis
    by (simp add: addMutator_def map_get_def info_core_map_set)
qed

lemma info_core_keys: "map info_core r' = map info_core r \<Longrightarrow> map fst r' = map fst r"
proof -
  assume "map info_core r' = map info_core r"
  then have "map (fst \<circ> info_core) r' = map (fst \<circ> info_core) r"
    by (metis map_map)
  moreover have "fst \<circ> info_core = fst"
    by (auto simp: info_core_def)
  ultimately show ?thesis by simp
qed

lemma mutatorLoop_ok:
  "set w \<subseteq> fst ` set r \<Longrightarrow>
   \<exists>r'. mutatorLoop w i us r = Inr r' \<and> map info_core r' = map info_core r"
proof (induction us arbitrary: r)
  case Nil
  then show ?case by simp
next
  case (Cons u us)
  show ?case
  proof (cases "u \<in> set w")
    case True
    then have "u \<in> fst ` set r" using Cons.prems by auto
    then obtain r1 where r1: "addMutator u i r = Inr r1" "map info_core r1 = map info_core r"
      using addMutator_ok by blast
    then have "fst ` set r1 = fst ` set r"
      by (metis info_core_keys set_map)
    with Cons.prems have "set w \<subseteq> fst ` set r1" by simp
    from Cons.IH [OF this] r1 True show ?thesis by auto
  next
    case False
    with Cons.IH [OF Cons.prems] show ?thesis by simp
  qed
qed

lemma analyzeStep2_ok:
  "set w \<subseteq> fst ` set r \<Longrightarrow>
   \<exists>r'. analyzeStep2 w xs r = Inr r' \<and> map info_core r' = map info_core r"
proof (induction xs arbitrary: r)
  case Nil
  then show ?case by simp
next
  case (Cons x xs)
  obtain i instr where x: "x = (i, instr)" by (cases x)
  show ?case
  proof (cases "isCall instr")
    case True
    obtain r1 where r1: "mutatorLoop w i (eachValue instr) r = Inr r1"
      "map info_core r1 = map info_core r"
      using mutatorLoop_ok [OF Cons.prems] by blast
    then have "fst ` set r1 = fst ` set r"
      by (metis info_core_keys set_map)
    with Cons.prems have "set w \<subseteq> fst ` set r1" by simp
    from Cons.IH [OF this] r1 True show ?thesis by (auto simp: x)
  next
    case False
    with Cons.IH [OF Cons.prems] show ?thesis by (simp add: x)
  qed
qed

lemma writable_fold_keys:
  "set (fold writableStep xs acc) \<subseteq> set acc \<union> fst ` set xs"
proof (induction xs arbitrary: acc)
  case Nil
  then show ?case by simp
next
  case (Cons x xs)
  obtain i instr where x: "x = (i, instr)" by (cases x)
  have "set (writableStep x acc) \<subseteq> insert i (set acc)"
    by (auto simp: x writableStep_def fold_mark_set split: if_splits)
  with Cons.IH [of "writableStep x acc"] show ?case
    by (auto simp: x)
qed

lemma getWritableValues_keys: "set (getWritableValues func) \<subseteq> fst ` set func"
  using writable_fold_keys [of func "[]"] by (simp add: getWritableValues_def)

lemma analyze_core:
  assumes "distinct (map fst func)"
  shows "\<exists>infos. analyze func = Inr infos \<and>
           map info_core infos = map info_core (map (step1_info func (getValuesThatMayChange func)) func)"
proof -
  let ?mc = "getValuesThatMayChange func"
  let ?r = "map (step1_info func ?mc) func"
  have r: "fold (analyzeStep1 func ?mc) func [] = ?r"
    using analyzeStep1_fold [OF assms, of "[]" func ?mc] by simp
  have "fst ` set ?r = fst ` set func"
    by (force simp: step1_info_def)
  then have "set (getWritableValues func) \<subseteq> fst ` set ?r"
    using getWritableValues_keys by simp
  from analyzeStep2_ok [OF this] show ?thesis
    by (simp add: analyze_def Let_def r)
qed


lemma eachValue_Object: "eachValue (Object props) = rvalues (map snd props)"
  by (induction props) (auto simp: rvalues_def)

lemma rvalues_append [simp]: "rvalues (xs @ ys) = rvalues xs @ rvalues ys"
  by (simp add: rvalues_def)

lemma rvalues_simps [simp]:
  "rvalues [] = []" "rvalues [RValue v] = [v]" "rvalues [LiteralValue l] = []"
  by (simp_all add: rvalues_def)

lemma set_rvalues: "set (rvalues vs) = {v. RValue v \<in> set vs}"
  by (induction vs) (auto simp: rvalues_def split: Value.splits)

lemma map_set_subset: "set (map_set k v m) \<subseteq> insert (k, v) (set m)"
  by (induction m) (auto split: if_splits)

lemma map_set_values: "snd ` set (map_set k v m) \<subseteq> insert v (snd ` set m)"
  using map_set_subset [of k v m] by force

lemma rvalues_map_set:
  "set (rvalues (map snd (map_set k v m))) \<subseteq> set (rvalues [v]) \<union> set (rvalues (map snd m))"
  using map_set_values [of k v m] by (auto simp: set_rvalues)

lemma dense_key_fresh: "dense func \<Longrightarrow> length func \<notin> fst ` set func"
proof
  assume d: "dense func" and "length func \<in> fst ` set func"
  then have "length func \<in> set (map fst func)" by simp
  with d show False by (simp add: dense_def)
qed

lemma emit_dense:
  "dense (fst st) \<Longrightarrow>
   emit instr st = ((fst st @ [(length (fst st), instr)], snd st @ [InstrLine instr (length (fst st))]),
                    length (fst st))"
  by (simp add: emit_def Let_def map_set_fresh dense_key_fresh)

lemma lowered_ok_snoc:
  assumes "lowered_ok func" and "\<forall>u \<in> set (eachValue instr). u < length func"
  shows "lowered_ok (func @ [(length func, instr)])"
  using assms by (auto simp: lowered_ok_def dense_def operandsSmaller_def)

lemma emit_ok:
  assumes "lowered_ok (fst st)" and "\<forall>u \<in> set (eachValue instr). u < length (fst st)"
  shows "lowered_ok (fst (fst (emit instr st)))"
    and "length (fst (fst (emit instr st))) = Suc (length (fst st))"
    and "snd (emit instr st) = length (fst st)"
proof -
  have d: "dense (fst st)" using assms(1) by (simp add: lowered_ok_def)
  show "lowered_ok (fst (fst (emit instr st)))"
    using lowered_ok_snoc [OF assms] by (simp add: emit_dense [OF d])
  show "length (fst (fst (emit instr st))) = Suc (length (fst st))"
    by (simp add: emit_dense [OF d])
  show "snd (emit instr st) = length (fst st)"
    by (simp add: emit_dense [OF d])
qed

lemma getDeclaration_key: "getDeclaration func name = Some d \<Longrightarrow> d \<in> fst ` set func"
proof (induction func)
  case Nil
  then show ?case by simp
next
  case (Cons x xs)
  obtain i instr where x: "x = (i, instr)" by (cases x)
  from Cons show ?case
    by (cases instr) (auto simp: x split: if_splits)
qed

lemma dense_key_less: "dense func \<Longrightarrow> d \<in> fst ` set func \<Longrightarrow> d < length func"
proof -
  assume d: "dense func" and "d \<in> fst ` set func"
  then have "d \<in> set (map fst func)" by simp
  with d show ?thesis by (simp add: dense_def)
qed

lemma lower_leaf:
  assumes "lowered_ok (fst st)" and "eachValue instr = []"
  shows "step_ok st (fst (emit instr st)) \<and> snd (emit instr st) < length (fst (fst (emit instr st)))"
  using emit_ok [of st instr] assms by (simp add: step_ok_def)

lemma lower_leaf_log:
  assumes "lowered_ok (fst st)" and "eachValue instr = []"
  shows "step_ok st (fst (emit instr (fst st, lg))) \<and>
         snd (emit instr (fst st, lg)) < length (fst (fst (emit instr (fst st, lg))))"
  using emit_ok [of "(fst st, lg)" instr] assms by (simp add: step_ok_def)

lemma step_ok_refl: "lowered_ok (fst st) \<Longrightarrow> step_ok st st"
  by (simp add: step_ok_def)

lemma step_ok_trans: "step_ok a b \<Longrightarrow> step_ok b c \<Longrightarrow> step_ok a c"
  by (auto simp: step_ok_def)

lemma below_mono: "below us a \<Longrightarrow> step_ok a b \<Longrightarrow> below us b"
  by (auto simp: below_def step_ok_def)

lemma below_Object: "below (eachValue (Object pvs)) s = below (rvalues (map snd pvs)) s"
  by (simp only: eachValue_Object)

lemma below_Call: "below (eachValue (Call r p a)) s \<longleftrightarrow> r < length (fst s) \<and> below (rvalues a) s"
  by (simp add: below_def rvalues_def)

lemma emit_step:
  assumes "lowered_ok (fst st)" and "below (eachValue instr) st" and "emit instr st = (st', v)"
  shows "step_ok st st' \<and> v < length (fst st')"
  using emit_ok [of st instr] assms by (auto simp: step_ok_def below_def)

lemma asMemberExpression_SomeD:
  "asMemberExpression n = Some m \<Longrightarrow> \<exists>c. n = MemberExpression (fst m) (snd m) c"
  by (cases n) (auto simp: asMemberExpression_def)

lemma below_map_set:
  "below (rvalues (map snd pv)) st \<Longrightarrow> below (rvalues [x]) st \<Longrightarrow>
   below (rvalues (map snd (map_set k x pv))) st"
  using rvalues_map_set [of k x pv] by (auto simp: below_def)

lemma props_ok_Cons:
  "props_ok (prop # rest) \<longleftrightarrow>
     (case asObjectProperty prop of
        None \<Rightarrow> True
      | Some kv \<Rightarrow> \<not> isStatement (snd kv) \<and> operandsAreExpressions (snd kv)) \<and> props_ok rest"
  by (simp add: props_ok_def)

lemma args_ok_Cons:
  "args_ok (arg # rest) \<longleftrightarrow> \<not> isStatement arg \<and> operandsAreExpressions arg \<and> args_ok rest"
  by (auto simp: args_ok_def)

lemma decls_ok_Cons:
  "decls_ok (decl # rest) \<longleftrightarrow>
     (case asVariableDeclarator decl of
        None \<Rightarrow> True
      | Some d \<Rightarrow> (case snd d of
                     None \<Rightarrow> True
                   | Some init \<Rightarrow> \<not> isStatement init \<and> operandsAreExpressions init)) \<and> decls_ok rest"
  by (simp add: decls_ok_def)

lemma literal_not_statement: "literalValue n = None \<Longrightarrow> True"
  by simp

lemma emit_leaf:
  assumes "emit instr (a, b) = ((aa, ba), v)" and "lowered_ok a" and "eachValue instr = []"
  shows "step_ok (a, b0) (aa, ba) \<and> v < length aa"
  using emit_ok [of "(a, b)" instr] assms by (simp add: step_ok_def)

lemma lowering_ok:
  "lowerBabelInstr n st = Inr (st', v) \<Longrightarrow> lowered_ok (fst st) \<Longrightarrow> operandsAreExpressions n \<Longrightarrow>
     step_ok st st' \<and> (\<not> isStatement n \<longrightarrow> v < length (fst st'))"
  "lowerProperties props pv st = Inr (st', pv') \<Longrightarrow> lowered_ok (fst st) \<Longrightarrow> props_ok props \<Longrightarrow>
     below (rvalues (map snd pv)) st \<Longrightarrow> step_ok st st' \<and> below (rvalues (map snd pv')) st'"
  "lowerArguments args av st = Inr (st', av') \<Longrightarrow> lowered_ok (fst st) \<Longrightarrow> args_ok args \<Longrightarrow>
     below (rvalues av) st \<Longrightarrow> step_ok st st' \<and> below (rvalues av') st'"
  "lowerDeclarations dcls lv st = Inr (st', lv') \<Longrightarrow> lowered_ok (fst st) \<Longrightarrow> decls_ok dcls \<Longrightarrow>
     step_ok st st'"
proof (induction n st and props pv st and args av st and dcls lv st
       arbitrary: st' v and st' pv' and st' av' and st' lv'
       rule: lowerBabelInstr_lowerProperties_lowerArguments_lowerDeclarations.induct)
  case (1 object property computed state)
  from "1.prems"(1) obtain s1 ov pn where
    a: "lowerBabelInstr object state = Inr (s1, ov)" and
    b: "emit (ReadProperty ov pn) s1 = (st', v)"
    by (auto split: sum.splits prod.splits)
  from "1.IH" [OF a "1.prems"(2)] "1.prems"(3)
  have c: "step_ok state s1" "ov < length (fst s1)" by auto
  then have "lowered_ok (fst s1)" by (simp add: step_ok_def)
  from emit_step [OF this _ b] c show ?case
    by (auto simp: below_def isStatement_def intro: step_ok_trans)
next
  case (2 properties state)
  from "2.prems"(1) obtain s1 pvs where
    a: "lowerProperties properties [] state = Inr (s1, pvs)" and
    b: "emit (Object pvs) s1 = (st', v)"
    by (auto split: sum.splits prod.splits)
  have "props_ok properties" using "2.prems"(3) by (simp add: props_ok_def)
  from "2.IH" [OF a "2.prems"(2) this]
  have c: "step_ok state s1" "below (rvalues (map snd pvs)) s1" by (auto simp: below_def)
  then have "lowered_ok (fst s1)" by (simp add: step_ok_def)
  from emit_step [OF this _ b] c below_Object [of pvs s1] show ?case
    by (auto simp: isStatement_def simp del: eachValue.simps intro: step_ok_trans)
next
  case (3 callee args state)
  from "3.prems"(1) obtain s1 rv pn s2 avs where
    a: "(case asMemberExpression callee of
           None \<Rightarrow>
             (case lowerBabelInstr callee state of
                Inl e \<Rightarrow> Inl e
              | Inr (state1, receiverValue) \<Rightarrow> Inr (state1, receiverValue, None))
         | Some member \<Rightarrow>
             (case lowerBabelInstr (fst member) state of
                Inl e \<Rightarrow> Inl e
              | Inr (state1, receiverValue) \<Rightarrow>
                  (case assertsValid (isIdentifier (snd member)) ''Only identifier properties supported'' of
                     Inl e \<Rightarrow> Inl e
                   | Inr _ \<Rightarrow> Inr (state1, receiverValue, Some (identifier_name (snd member))))))
        = Inr (s1, rv, pn)" and
    b: "lowerArguments args [] s1 = Inr (s2, avs)" and
    c: "emit (Call rv pn avs) s2 = (st', v)"
    by (auto split: sum.splits prod.splits)
  have r: "step_ok state s1 \<and> rv < length (fst s1)"
  proof (cases "asMemberExpression callee")
    case None
    with a have l: "lowerBabelInstr callee state = Inr (s1, rv)"
      by (auto split: sum.splits prod.splits)
    from "3.IH"(1) [OF None l "3.prems"(2)] "3.prems"(3) show ?thesis by simp
  next
    case (Some m)
    with a have l: "lowerBabelInstr (fst m) state = Inr (s1, rv)"
      by (auto split: sum.splits prod.splits)
    from asMemberExpression_SomeD [OF Some] "3.prems"(3)
    have "\<not> isStatement (fst m)" "operandsAreExpressions (fst m)" by auto
    with "3.IH"(2) [OF Some l "3.prems"(2)] show ?thesis by simp
  qed
  then have ok1: "lowered_ok (fst s1)" by (simp add: step_ok_def)
  have "args_ok args" using "3.prems"(3) by (simp add: args_ok_def)
  from "3.IH"(3) [OF a refl refl b ok1 this]
  have d: "step_ok s1 s2" "below (rvalues avs) s2" by (auto simp: below_def)
  then have ok2: "lowered_ok (fst s2)" by (simp add: step_ok_def)
  have "below (eachValue (Call rv pn avs)) s2"
    using r d unfolding below_Call by (auto simp: step_ok_def)
  from emit_step [OF ok2 this c] r d show ?case
    by (auto simp: isStatement_def intro: step_ok_trans)
next
  case (4 argument state)
  show ?case
  proof (cases argument)
    case None
    with "4.prems" lower_leaf [of state "Return None"] show ?thesis
      by (auto simp: isStatement_def)
  next
    case (Some a)
    with "4.prems"(1) obtain s1 av where
      l: "lowerBabelInstr a state = Inr (s1, av)" and
      e: "emit (Return (Some av)) s1 = (st', v)"
      by (auto split: sum.splits prod.splits)
    from "4.prems"(3) Some have "\<not> isStatement a" "operandsAreExpressions a" by auto
    with "4.IH" [OF Some l "4.prems"(2)]
    have c: "step_ok state s1" "av < length (fst s1)" by auto
    then have "lowered_ok (fst s1)" by (simp add: step_ok_def)
    from emit_step [OF this _ e] c show ?thesis
      by (auto simp: below_def isStatement_def intro: step_ok_trans)
  qed
next
  case (5 kind declarations state)
  have "decls_ok declarations" using "5.prems"(3) by (simp add: decls_ok_def)
  with "5.IH" [of st' v] "5.prems" show ?case
    by (simp add: isStatement_def)
next
  case (6 name state)
  show ?case
  proof (cases "getDeclaration (fst state) name")
    case None
    with "6.prems" lower_leaf [of state "LoadConstant name"] show ?thesis
      by (auto simp: isStatement_def)
  next
    case (Some d)
    have "dense (fst state)" using "6.prems"(2) by (simp add: lowered_ok_def)
    from dense_key_less [OF this getDeclaration_key [OF Some]] Some "6.prems" show ?thesis
      by (auto simp: step_ok_refl)
  qed
next
  case (7 expression state)
  from "7.IH" [of st' v] "7.prems" show ?case
    by (simp add: isStatement_def)
next
  case (14 propertyValues state)
  then show ?case by (simp add: step_ok_refl)
next
  case (15 pr rest propertyValues state)
  note pc = "15.prems"(3) [unfolded props_ok_Cons]
  show ?case
  proof (cases "asObjectProperty pr")
    case None
    with "15.IH"(1) [OF None _ "15.prems"(2)] "15.prems"(1,4) pc show ?thesis
      by simp
  next
    case (Some kv)
    obtain key val where kv: "kv = (key, val)" by (cases kv)
    from "15.prems"(1) Some kv obtain u where
      av: "assertsValid (isIdentifier key) ''Only identifier keys supported'' = Inr u"
      by (auto split: sum.splits)
    show ?thesis
    proof (cases "literalValue val")
      case None
      from "15.prems"(1) Some kv av None obtain s1 v1 where
        l: "lowerBabelInstr val state = Inr (s1, v1)" and
        r: "lowerProperties rest (map_set (identifier_name key) (RValue v1) propertyValues) s1
            = Inr (st', pv')"
        by (auto split: sum.splits prod.splits)
      from pc Some kv have "\<not> isStatement val" "operandsAreExpressions val" by auto
      with "15.IH"(2) [OF Some kv [symmetric] av None l "15.prems"(2)]
      have c: "step_ok state s1" "v1 < length (fst s1)" by auto
      then have ok1: "lowered_ok (fst s1)" by (simp add: step_ok_def)
      have "below (rvalues (map snd (map_set (identifier_name key) (RValue v1) propertyValues))) s1"
        using below_mono [OF "15.prems"(4) c(1)] c(2)
        by (intro below_map_set) (auto simp: below_def)
      from "15.IH"(3) [OF Some kv [symmetric] av None l refl r ok1 _ this] pc c(1)
      show ?thesis by (auto intro: step_ok_trans)
    next
      case (Some l)
      from "15.prems"(1) \<open>asObjectProperty pr = Some kv\<close> kv av Some have
        r: "lowerProperties rest (map_set (identifier_name key) (LiteralValue l) propertyValues) state
            = Inr (st', pv')"
        by auto
      have "below (rvalues (map snd (map_set (identifier_name key) (LiteralValue l) propertyValues))) state"
        using "15.prems"(4) by (intro below_map_set) (auto simp: below_def)
      from "15.IH"(4) [OF \<open>asObjectProperty pr = Some kv\<close> kv [symmetric] av Some r "15.prems"(2) _ this] pc
      show ?thesis by simp
    qed
  qed
next
  case (16 argumentValues state)
  then show ?case by (simp add: step_ok_refl)
next
  case (17 arg rest argumentValues state)
  note ac = "17.prems"(3) [unfolded args_ok_Cons]
  show ?case
  proof (cases "literalValue arg")
    case None
    from "17.prems"(1) None obtain s1 v1 where
      l: "lowerBabelInstr arg state = Inr (s1, v1)" and
      r: "lowerArguments rest (argumentValues @ [RValue v1]) s1 = Inr (st', av')"
      by (auto split: sum.splits prod.splits)
    from "17.IH"(1) [OF None l "17.prems"(2)] ac
    have c: "step_ok state s1" "v1 < length (fst s1)" by auto
    then have ok1: "lowered_ok (fst s1)" by (simp add: step_ok_def)
    have "below (rvalues (argumentValues @ [RValue v1])) s1"
      using below_mono [OF "17.prems"(4) c(1)] c(2) by (auto simp: below_def)
    from "17.IH"(2) [OF None l refl r ok1 _ this] ac c(1)
    show ?thesis by (auto intro: step_ok_trans)
  next
    case (Some l)
    from "17.prems"(1) Some have
      r: "lowerArguments rest (argumentValues @ [LiteralValue l]) state = Inr (st', av')"
      by simp
    have "below (rvalues (argumentValues @ [LiteralValue l])) state"
      using "17.prems"(4) by (auto simp: below_def)
    from "17.IH"(3) [OF Some r "17.prems"(2) _ this] ac show ?thesis by simp
  qed
next
  case (18 lastValue state)
  then show ?case by (simp add: step_ok_refl)
next
  case (19 decl rest lastValue state)
  note dc = "19.prems"(3) [unfolded decls_ok_Cons]
  show ?case
  proof (cases "asVariableDeclarator decl")
    case None
    with "19.IH"(1) [OF None _ "19.prems"(2)] "19.prems"(1) dc show ?thesis
      by simp
  next
    case (Some d)
    obtain i' init where d: "d = (i', init)" by (cases d)
    from "19.prems"(1) Some d obtain initNode where init: "init = Some initNode"
      by (cases init) auto
    show ?thesis
    proof (cases "declaredName i'")
      case None
      let ?st = "(fst state, snd state @ [TextLine (warning_sign
                   @ '' Skipping unsupported declaration pattern: '' @ node_type i')])"
      from "19.prems"(1) \<open>asVariableDeclarator decl = Some d\<close> d init None have
        r: "lowerDeclarations rest lastValue ?st = Inr (st', lv')"
        by simp
      from "19.IH"(2) [OF \<open>asVariableDeclarator decl = Some d\<close> d [symmetric] init None r] "19.prems"(2) dc
      show ?thesis by (simp add: step_ok_def)
    next
      case (Some lhs)
      from "19.prems"(1) \<open>asVariableDeclarator decl = Some d\<close> d init Some obtain s1 iv where
        l: "lowerBabelInstr initNode state = Inr (s1, iv)" and
        r: "lowerDeclarations rest (snd (emit (Declare lhs iv) s1)) (fst (emit (Declare lhs iv) s1))
            = Inr (st', lv')"
        by (auto simp: Let_def split: sum.splits prod.splits)
      from dc \<open>asVariableDeclarator decl = Some d\<close> d init
      have "\<not> isStatement initNode" "operandsAreExpressions initNode" by auto
      with "19.IH"(3) [OF \<open>asVariableDeclarator decl = Some d\<close> d [symmetric] init Some l "19.prems"(2)]
      have c: "step_ok state s1" "iv < length (fst s1)" by auto
      then have ok1: "lowered_ok (fst s1)" by (simp add: step_ok_def)
      obtain s2 cv where e: "emit (Declare lhs iv) s1 = (s2, cv)" by (cases "emit (Declare lhs iv) s1")
      from emit_step [OF ok1 _ e] c have f: "step_ok s1 s2" by (auto simp: below_def)
      then have ok2: "lowered_ok (fst s2)" by (simp add: step_ok_def)
      from "19.IH"(4) [OF \<open>asVariableDeclarator decl = Some d\<close> d [symmetric] init Some l refl refl r] ok2 dc e
      have "step_ok s2 st'" by simp
      with c(1) f show ?thesis by (blast intro: step_ok_trans)
    qed
  qed
qed (auto simp: isStatement_def dest: emit_leaf)











lemma distinct_set_add: "distinct xs \<Longrightarrow> distinct (set_add x xs)"
  by (simp add: set_add_def)

lemma collectDependencies_distinct: "distinct (collectDependencies mc instr)"
proof -
  have "distinct acc \<Longrightarrow>
        distinct (fold (\<lambda>used ds. if used \<in> set mc then set_add used ds else ds) us acc)" for us acc
    by (induction us arbitrary: acc) (auto simp: distinct_set_add)
  then show ?thesis by (simp add: collectDependencies_def)
qed

lemma info_core_lookup:
  "map info_core r' = map info_core r \<Longrightarrow> map_of r k = Some a \<Longrightarrow>
   \<exists>b. map_of r' k = Some b \<and> dependencies b = dependencies a \<and> shouldMemo b = shouldMemo a"
proof (induction r arbitrary: r')
  case Nil
  then show ?case by simp
next
  case (Cons x xs)
  from Cons.prems(1) obtain y ys where r': "r' = y # ys" and
    h: "info_core y = info_core x" and t: "map info_core ys = map info_core xs"
    by (cases r') auto
  obtain kx ix where x: "x = (kx, ix)" by (cases x)
  obtain ky iy where y: "y = (ky, iy)" by (cases y)
  from h x y have e: "ky = kx" "dependencies iy = dependencies ix" "shouldMemo iy = shouldMemo ix"
    by (auto simp: info_core_def)
  show ?case
  proof (cases "k = kx")
    case True
    with Cons.prems(2) x have "a = ix" by simp
    with True e r' y show ?thesis by simp
  next
    case False
    with Cons.prems(2) x have "map_of xs k = Some a" by simp
    from Cons.IH [OF t this] False e r' y show ?thesis by simp
  qed
qed

text \<open>
  Claim C1.  For a function body (a map, so its ids are distinct) and any instruction
  \<open>instr\<close> stored under \<open>i\<close>, \<open>analyze\<close> returns a result whose entry for \<open>i\<close> has as
  \<open>dependencies\<close> exactly the operands of \<open>instr\<close> that are may-change, where the may-change
  set is the one forward sweep \<open>mayChangeSpec\<close> (seeded with every \<open>Param\<close> and every call
  whose receiver is a constant named \<open>use...\<close>, extended to every instruction that
  consumes a may-change id); and \<open>shouldMemo\<close> is true iff the instruction is expensive and
  has a dependency.
\<close>

theorem analyze_dependencies_shouldMemo:
  assumes "distinct (map fst func)" and "(i, instr) \<in> set func"
  shows "\<exists>infos info ds.
           analyze func = Inr infos \<and> map_get infos i = Some info \<and>
           dependencies info = Some ds \<and> distinct ds \<and>
           set ds = {u \<in> set (eachValue instr). u \<in> mayChangeSpec func} \<and>
           shouldMemo info = Some (isExpensiveOperation instr func \<and> set ds \<noteq> {})"
proof -
  let ?mc = "getValuesThatMayChange func"
  let ?r = "map (step1_info func ?mc) func"
  let ?ds = "collectDependencies ?mc instr"
  obtain infos where a: "analyze func = Inr infos" and c: "map info_core infos = map info_core ?r"
    using analyze_core [OF assms(1)] by blast
  have keys: "map fst ?r = map fst func"
    by (induction func) (auto simp: step1_info_def)
  have "(i, snd (step1_info func ?mc (i, instr))) \<in> set ?r"
    using assms(2) by (force simp: step1_info_def)
  with assms(1) keys have "map_of ?r i = Some (snd (step1_info func ?mc (i, instr)))"
    by (metis map_of_is_SomeI)
  from info_core_lookup [OF c this] obtain info where
    l: "map_of infos i = Some info" and d: "dependencies info = Some ?ds" and
    s: "shouldMemo info = Some (isExpensiveOperation instr func \<and> ?ds \<noteq> [])"
    by (auto simp: step1_info_def)
  have "set ?ds = {u \<in> set (eachValue instr). u \<in> mayChangeSpec func}"
    by (simp add: collectDependencies_set getValuesThatMayChange_spec)
  moreover have "(?ds \<noteq> []) = (set ?ds \<noteq> {})" by simp
  ultimately show ?thesis
    using a l d s collectDependencies_distinct [of ?mc instr]
    by (auto simp: map_get_def)
qed

theorem analyze_dependencies_shouldMemo_witness:
  "distinct (map fst scenarioA_ir) \<and> (3, Call 0 (Some ''map'') [RValue 2]) \<in> set scenarioA_ir \<and>
   (\<exists>infos info ds.
      analyze scenarioA_ir = Inr infos \<and> map_get infos 3 = Some info \<and>
      dependencies info = Some ds \<and> distinct ds \<and>
      set ds = {u \<in> set (eachValue (Call 0 (Some ''map'') [RValue 2])). u \<in> mayChangeSpec scenarioA_ir} \<and>
      shouldMemo info = Some (isExpensiveOperation (Call 0 (Some ''map'') [RValue 2]) scenarioA_ir \<and> set ds \<noteq> {}))"
proof -
  have h1: "distinct (map fst scenarioA_ir)" by (simp add: scenarioA_ir_def)
  have h2: "(3, Call 0 (Some ''map'') [RValue 2]) \<in> set scenarioA_ir" by (simp add: scenarioA_ir_def)
  from analyze_dependencies_shouldMemo [OF h1 h2] h1 h2 show ?thesis by blast
qed

lemma readObjectPatternParam_ok:
  "readObjectPatternParam props m = Inr m' \<Longrightarrow> lowered_ok m \<Longrightarrow> lowered_ok m'"
proof (induction props arbitrary: m)
  case Nil
  then show ?case by simp
next
  case (Cons p ps)
  from Cons.prems(1) obtain key val where p: "p = ObjectProperty key val"
    by (cases p) auto
  from Cons.prems(2) have d: "dense m" by (simp add: lowered_ok_def)
  have "lowered_ok (m @ [(length m, Param (identifier_name key))])"
    using lowered_ok_snoc [OF Cons.prems(2), of "Param (identifier_name key)"] by simp
  with Cons.IH [of "m @ [(length m, Param (identifier_name key))]"] Cons.prems(1) p show ?case
    by (auto simp: map_set_fresh dense_key_fresh [OF d] split: sum.splits)
qed

lemma readParams_ok:
  "readParams params m = Inr m' \<Longrightarrow> lowered_ok m \<Longrightarrow> lowered_ok m'"
proof (induction params arbitrary: m)
  case Nil
  then show ?case by simp
next
  case (Cons p ps)
  from Cons.prems(2) have d: "dense m" by (simp add: lowered_ok_def)
  show ?case
  proof (cases p)
    case (Identifier name)
    have "lowered_ok (m @ [(length m, Param name)])"
      using lowered_ok_snoc [OF Cons.prems(2), of "Param name"] by simp
    with Cons.IH [of "m @ [(length m, Param name)]"] Cons.prems(1) Identifier show ?thesis
      by (simp add: map_set_fresh dense_key_fresh [OF d])
  next
    case (ObjectPattern props)
    with Cons.prems(1) obtain m1 where
      a: "readObjectPatternParam props m = Inr m1" and b: "readParams ps m1 = Inr m'"
      by (auto split: sum.splits)
    from Cons.IH [OF b readObjectPatternParam_ok [OF a Cons.prems(2)]] show ?thesis .
  qed (use Cons.prems(1) in auto)
qed

lemma lowerStatements_ok:
  "lowerStatements body st = Inr st' \<Longrightarrow> lowered_ok (fst st) \<Longrightarrow>
   list_all operandsAreExpressions body \<Longrightarrow> lowered_ok (fst st')"
proof (induction body arbitrary: st)
  case Nil
  then show ?case by simp
next
  case (Cons s ss)
  from Cons.prems(1) obtain s1 v where
    a: "lowerBabelInstr s st = Inr (s1, v)" and b: "lowerStatements ss s1 = Inr st'"
    by (auto split: sum.splits prod.splits)
  from lowering_ok(1) [OF a Cons.prems(2)] Cons.prems(3) have "lowered_ok (fst s1)"
    by (simp add: step_ok_def)
  from Cons.IH [OF b this] Cons.prems(3) show ?case by simp
qed

text \<open>
  Claim C4.  If lowering a function (parameters, then body statements) succeeds, and the
  syntax tree is typed as the parser types it (\<open>operandsAreExpressions\<close>: an operand
  position holds an expression, never a statement), then the ids of the function body are
  \<open>0, 1, \<dots>, size - 1\<close> in order and every operand of every instruction is an id strictly
  smaller than the id of the instruction that holds it.
\<close>

theorem lowered_operands_smaller:
  assumes "readInstructions (FunctionDeclaration nm params body) = Inr (func, lg)"
    and "list_all operandsAreExpressions body"
  shows "dense func \<and> operandsSmaller func"
proof -
  from assms(1) obtain m where
    a: "readParams params [] = Inr m" and b: "lowerStatements body (m, []) = Inr (func, lg)"
    by (auto simp: readInstructions_def split: sum.splits)
  have "lowered_ok []" by (simp add: lowered_ok_def dense_def operandsSmaller_def)
  from readParams_ok [OF a this] have "lowered_ok (fst (m, []))" by simp
  from lowerStatements_ok [OF b this assms(2)] show ?thesis
    by (simp add: lowered_ok_def)
qed

lemma scenarioA_lowered:
  "readInstructions scenarioA =
     Inr (scenarioA_ir,
          [InstrLine (LoadConstant ''function'') 2, InstrLine (Call 0 (Some ''map'') [RValue 2]) 3,
           InstrLine (Declare ''c'' 3) 4, InstrLine (Return (Some 4)) 5])"
  by (simp add: scenarioA_def scenarioA_ir_def readInstructions_def emit_def assertsValid_def
        isIdentifier_def identifier_name_def literalValue_def asMemberExpression_def
        asVariableDeclarator_def declaredName_def Let_def)

theorem lowered_operands_smaller_witness:
  "readInstructions scenarioA =
     Inr (scenarioA_ir,
          [InstrLine (LoadConstant ''function'') 2, InstrLine (Call 0 (Some ''map'') [RValue 2]) 3,
           InstrLine (Declare ''c'' 3) 4, InstrLine (Return (Some 4)) 5])
   \<and> dense scenarioA_ir \<and> operandsSmaller scenarioA_ir"
proof -
  have wt: "list_all operandsAreExpressions
       [VariableDeclaration ''const''
        [VariableDeclarator (Identifier ''c'')
           (Some (CallExpression (MemberExpression (Identifier ''a'') (Identifier ''map'') False)
                    [ArrowFunctionExpression [Identifier ''x'']
                       (BinaryExpression ''*'' (Identifier ''x'') (Identifier ''b''))]))],
      ReturnStatement (Some (Identifier ''c''))]"
    by (simp add: asVariableDeclarator_def isStatement_def)
  from lowered_operands_smaller [OF scenarioA_lowered [unfolded scenarioA_def] wt] scenarioA_lowered
  show ?thesis by simp
qed

lemma string_of_int_1: "string_of_int 1 = ''1''"
  by code_simp

lemma string_of_nat_0: "string_of_nat 0 = ''0''"
  by code_simp

text \<open>
  Claim C6 as stated fails: in \<open>function f(a) { var a = 1; return a; }\<close> the name \<open>a\<close> is
  carried by the parameter (id 0) and by the later declaration (id 2); the \<open>return\<close>
  resolves it to id 0, not to the most recent declaration.
\<close>

theorem lower_identifier_last_declaration_counterexample:
  "readInstructions shadowing =
     Inr ([(0, Param ''a''), (1, LoadConstant ''1''), (2, Declare ''a'' 1), (3, Return (Some 0))],
          [InstrLine (LoadConstant ''1'') 1, InstrLine (Declare ''a'' 1) 2, InstrLine (Return (Some 0)) 3])
   \<and> declares (Declare ''a'' 1) ''a''"
  by (simp add: shadowing_def readInstructions_def emit_def literalValue_def
        asVariableDeclarator_def declaredName_def Let_def declares_def string_of_int_1
        del: string_of_nat.simps)

theorem lower_identifier_first_declaration_witness:
  "lowerBabelInstr (Identifier ''a'')
     ([(0, Param ''a''), (1, LoadConstant ''1''), (2, Declare ''a'' 1)], [])
   = Inr (([(0, Param ''a''), (1, LoadConstant ''1''), (2, Declare ''a'' 1)], []), 0)"
  using lower_identifier_first_declaration
          [of "''a''" "[(0, Param ''a''), (1, LoadConstant ''1''), (2, Declare ''a'' 1)]" "[]"]
  by (simp add: declares_def)


lemma assertsValid_isl: "isl (assertsValid c msg) = (\<not> c)"
  by (simp add: assertsValid_def)
















lemma placeholders_Nil: "placeholders [] st"
  by (simp add: placeholders_def)



















lemma no_seed_mayChange:
  "list_all (noSeed func) xs \<Longrightarrow> fold (mayChangeStep func) xs [] = []"
proof (induction xs)
  case Nil
  then show ?case by simp
next
  case (Cons x xs)
  obtain i instr where x: "x = (i, instr)" by (cases x)
  have "fold (\<lambda>used mc. if used \<in> set mc then set_add i mc else mc) us [] = []" for us
    by (induction us) auto
  with Cons.prems have "mayChangeStep func x [] = []"
    by (simp add: x mayChangeStep_def noSeed_def)
  with Cons show ?case by simp
qed

lemma collectDependencies_Nil: "collectDependencies [] instr = []"
proof -
  have "fold (\<lambda>used ds. if used \<in> set [] then set_add used ds else ds) us acc = acc" for us acc
    by (induction us arbitrary: acc) auto
  then show ?thesis by (simp add: collectDependencies_def)
qed

lemma map_set_map_fst:
  "map fst (map_set k v m) = (if k \<in> set (map fst m) then map fst m else map fst m @ [k])"
proof (induction m)
  case Nil
  then show ?case by simp
next
  case (Cons a m)
  obtain ka va where a: "a = (ka, va)" by (cases a)
  show ?case
  proof (cases "k = ka")
    case True
    then show ?thesis by (simp add: a)
  next
    case False
    with Cons.IH show ?thesis by (simp add: a)
  qed
qed

lemma map_set_keys: "fst ` set (map_set k v m) = insert k (fst ` set m)"
proof -
  have "set (map fst (map_set k v m)) = insert k (set (map fst m))"
    unfolding map_set_map_fst by auto
  then show ?thesis by simp
qed

lemma list_all_map_set: "list_all P m \<Longrightarrow> P (k, v) \<Longrightarrow> list_all P (map_set k v m)"
  by (induction m) auto

lemma step1_empty:
  "list_all emptyInfo acc \<Longrightarrow>
   list_all emptyInfo (fold (analyzeStep1 func []) xs acc) \<and>
   fst ` set (fold (analyzeStep1 func []) xs acc) = fst ` set acc \<union> fst ` set xs"
proof (induction xs arbitrary: acc)
  case Nil
  then show ?case by simp
next
  case (Cons x xs)
  obtain i instr where x: "x = (i, instr)" by (cases x)
  let ?acc = "analyzeStep1 func [] x acc"
  have a: "list_all emptyInfo ?acc"
    using Cons.prems
    by (simp add: x analyzeStep1_def collectDependencies_Nil Let_def list_all_map_set emptyInfo_def)
  have k: "fst ` set ?acc = insert i (fst ` set acc)"
    by (simp add: x analyzeStep1_def Let_def map_set_keys)
  from Cons.IH [OF a] k show ?case
    by (auto simp: x)
qed

lemma emptyInfo_core:
  "map info_core r' = map info_core r \<Longrightarrow> list_all emptyInfo r \<Longrightarrow> list_all emptyInfo r'"
proof (induction r arbitrary: r')
  case Nil
  then show ?case by simp
next
  case (Cons x xs)
  from Cons.prems(1) obtain y ys where r': "r' = y # ys" and
    h: "info_core y = info_core x" and t: "map info_core ys = map info_core xs"
    by (cases r') auto
  from h Cons.prems(2) have "emptyInfo y"
    by (cases x, cases y) (auto simp: info_core_def emptyInfo_def)
  with Cons.IH [OF t] Cons.prems(2) r' show ?case by simp
qed

lemma analyze_no_seed:
  assumes "list_all (noSeed func) func"
  shows "\<exists>infos. analyze func = Inr infos \<and> list_all emptyInfo infos \<and> fst ` set infos = fst ` set func"
proof -
  have mc: "getValuesThatMayChange func = []"
    using no_seed_mayChange [OF assms] by (simp add: getValuesThatMayChange_def)
  let ?r = "fold (analyzeStep1 func []) func []"
  from step1_empty [of "[]" func func]
  have e: "list_all emptyInfo ?r" and k: "fst ` set ?r = fst ` set func" by simp_all
  then have "set (getWritableValues func) \<subseteq> fst ` set ?r"
    using getWritableValues_keys by simp
  from analyzeStep2_ok [OF this, of func] obtain infos where
    a: "analyzeStep2 (getWritableValues func) func ?r = Inr infos" and
    c: "map info_core infos = map info_core ?r" by blast
  have "fst ` set infos = fst ` set ?r"
    by (metis c info_core_keys set_map)
  with a c e k mc show ?thesis
    by (auto simp: analyze_def Let_def intro: emptyInfo_core)
qed

lemma emptyInfo_not_memo: "emptyInfo (k, info) \<Longrightarrow> \<not> shouldMemoize info"
  by (simp add: emptyInfo_def shouldMemoize_def)

lemma unionAll_no_memo:
  "list_all emptyInfo infos \<Longrightarrow> unionAll xs infos ds = Inr ds"
proof (induction xs)
  case Nil
  then show ?case by simp
next
  case (Cons x xs)
  obtain i instr where x: "x = (i, instr)" by (cases x)
  show ?case
  proof (cases "map_get infos i")
    case None
    with Cons show ?thesis by (simp add: x)
  next
    case (Some info)
    then have "(i, info) \<in> set infos"
      by (simp add: map_get_def map_of_SomeD)
    with Cons.prems have "emptyInfo (i, info)"
      by (simp add: list_all_iff)
    with Cons Some show ?thesis
      by (simp add: x emptyInfo_not_memo)
  qed
qed

lemma ranges_no_memo:
  "list_all emptyInfo infos \<Longrightarrow> getInstructionScopeRanges func infos = Inr []"
  by (simp add: getInstructionScopeRanges_def unionAll_no_memo buildSets_def emptyDisjointSet_def)

lemma codegenLoop_plain:
  "codegenLoop func infos (map pruneDeps (plainRange func lo hi)) k out = Inr out"
proof -
  have "codegenLoop func infos
          (map pruneDeps (concat (map (\<lambda>i. case map_get func i of None \<Rightarrow> []
                                            | Some instr \<Rightarrow> [PlainInstr instr i]) is))) k out = Inr out" for "is"
    by (induction "is") (auto simp: pruneDeps_def split: option.splits)
  then show ?thesis by (simp add: plainRange_def)
qed

lemma rewriteStatement_id: "\<not> statementRewritten stmt \<Longrightarrow> rewriteStatement stmt = stmt"
  by (cases stmt) (simp_all add: statementRewritten_def rewriteStatement_def)

lemma rewriteStatements_id:
  "\<not> list_ex statementRewritten body \<Longrightarrow> map rewriteStatement body = body"
  by (induction body) (auto simp: rewriteStatement_id)

text \<open>
  Claim C8 as stated fails: \<open>function G() { const c = xs.map(f); return c; }\<close> has no
  parameter and no hook call, yet the statement-level pass rewrites the initializer of
  \<open>c\<close>.
\<close>

theorem no_seed_output_unchanged_counterexample:
  "readInstructions globalsOnly =
     Inr (globalsOnly_ir,
          [InstrLine (LoadConstant ''xs'') 0, InstrLine (LoadConstant ''f'') 1,
           InstrLine (Call 0 (Some ''map'') [RValue 1]) 2, InstrLine (Declare ''c'' 2) 3,
           InstrLine (Return (Some 3)) 4])
   \<and> list_all (noSeed globalsOnly_ir) globalsOnly_ir
   \<and> map rewriteStatement
        [VariableDeclaration ''const''
           [VariableDeclarator (Identifier ''c'')
              (Some (CallExpression (MemberExpression (Identifier ''xs'') (Identifier ''map'') False)
                       [Identifier ''f'']))],
         ReturnStatement (Some (Identifier ''c''))]
      = [VariableDeclaration ''const''
           [VariableDeclarator (Identifier ''c'')
              (Some (CallExpression (Identifier ''useMemo'')
                       [ArrowFunctionExpression []
                          (CallExpression (MemberExpression (Identifier ''xs'') (Identifier ''map'') False)
                             [Identifier ''f'']),
                        ArrayExpression [Identifier ''xs'', Identifier ''f'']]))],
         ReturnStatement (Some (Identifier ''c''))]"
  by (simp add: globalsOnly_def globalsOnly_ir_def readInstructions_def emit_def assertsValid_def
        isIdentifier_def identifier_name_def literalValue_def asMemberExpression_def
        asVariableDeclarator_def declaredName_def Let_def noSeed_def isParam_def isHookCall_def
        map_get_def startsWith_def rewriteStatement_def hasExpensiveOperation_def isExpensiveInit_def
        expensiveMethods_def rewriteDeclarator_def useMemoCall_def extractIdentifiers_def set_add_def
        excludeList_def)

text \<open>
  Claim C8, amended.  If lowering succeeds and the function body holds no \<open>Param\<close> and no
  hook call, then the analysis gives every instruction an empty dependency set and a false
  memoization flag, every instruction is passed through (no \<open>ReactiveBlock\<close> forms at all),
  \<open>codegenJS\<close> generates no declaration, and the compiled body is the input statement
  sequence with the statement-level rewrite applied to each statement; it is the input
  unchanged when no top-level variable declaration has an initializer that is directly a
  call of one of the expensive methods.
\<close>

theorem no_seed_no_memo:
  assumes "readInstructions (FunctionDeclaration nm params body) = Inr (func, lg)"
    and "list_all (noSeed func) func"
  shows "\<exists>infos.
           analyze func = Inr infos \<and> list_all emptyInfo infos \<and> fst ` set infos = fst ` set func \<and>
           makeReactiveInstrs func infos = Inr (plainRange func 0 (length func)) \<and>
           codegenJS func infos = Inr ([], []) \<and>
           compileFunction (FunctionDeclaration nm params body) =
             Inr \<lparr>body_out = map rewriteStatement body,
                  hasAnyOptimizations = list_ex statementRewritten body\<rparr> \<and>
           (\<not> list_ex statementRewritten body \<longrightarrow> map rewriteStatement body = body)"
proof -
  obtain infos where a: "analyze func = Inr infos" and e: "list_all emptyInfo infos"
    and k: "fst ` set infos = fst ` set func"
    using analyze_no_seed [OF assms(2)] by blast
  have r: "makeReactiveInstrs func infos = Inr (plainRange func 0 (length func))"
    by (simp add: makeReactiveInstrs_def ranges_no_memo [OF e] makeReactiveInstrsFrom_def)
  have c: "codegenJS func infos = Inr ([], [])"
    by (simp add: codegenJS_def r codegenLoop_plain)
  have "compileFunction (FunctionDeclaration nm params body) =
          Inr \<lparr>body_out = map rewriteStatement body,
               hasAnyOptimizations = list_ex statementRewritten body\<rparr>"
    by (simp add: compileFunction_def assms(1) a c)
  with a e k r c rewriteStatements_id [of body] show ?thesis by blast
qed

lemma scenarioA_mayChange: "getValuesThatMayChange scenarioA_ir = [0, 1, 3, 4, 5]"
  by (simp add: getValuesThatMayChange_def scenarioA_ir_def mayChangeStep_def isParam_def
        isHookCall_def map_get_def set_add_def)

lemma scenarioA_writable: "getWritableValues scenarioA_ir = [3, 4, 5]"
  by (simp add: getWritableValues_def scenarioA_ir_def writableStep_def isObjectOrCall_def set_add_def)

lemma scenarioA_analyze: "analyze scenarioA_ir = Inr scenarioA_infos"
  unfolding analyze_def Let_def scenarioA_mayChange scenarioA_writable
  by (simp add: scenarioA_ir_def scenarioA_infos_def analyzeStep1_def collectDependencies_def
        isExpensiveOperation_def expensiveMethods_def set_add_def isCall_def Let_def)

lemma scenarioA_ranges: "getInstructionScopeRanges scenarioA_ir scenarioA_infos = Inr []"
  by (simp add: getInstructionScopeRanges_def scenarioA_ir_def scenarioA_infos_def map_get_def
        shouldMemoize_def ds_union_def buildSets_def emptyDisjointSet_def)

lemma scenarioA_reactive:
  "makeReactiveInstrs scenarioA_ir scenarioA_infos = Inr (plainRange scenarioA_ir 0 (length scenarioA_ir))"
  by (simp add: makeReactiveInstrs_def scenarioA_ranges makeReactiveInstrsFrom_def)

lemma scenarioA_codegen: "codegenJS scenarioA_ir scenarioA_infos = Inr ([], [])"
  by (simp add: codegenJS_def scenarioA_reactive codegenLoop_plain)

lemma scenarioA_identifiers: "extractIdentifiers mapCall = [''a'', ''x'', ''b'']"
  by (simp add: extractIdentifiers_def mapCall_def set_add_def)

lemma scenarioA_compile:
  "compileFunction scenarioA =
     Inr \<lparr>body_out =
            [VariableDeclaration ''const''
               [VariableDeclarator (Identifier ''c'') (Some (useMemoCall mapCall [''a'', ''x'', ''b'']))],
             ReturnStatement (Some (Identifier ''c''))],
          hasAnyOptimizations = True\<rparr>"
proof -
  have e: "isExpensiveInit (Some mapCall)"
    by (simp add: isExpensiveInit_def mapCall_def expensiveMethods_def)
  have r: "rewriteStatement
          (VariableDeclaration ''const'' [VariableDeclarator (Identifier ''c'') (Some mapCall)])
        = VariableDeclaration ''const''
             [VariableDeclarator (Identifier ''c'') (Some (useMemoCall mapCall [''a'', ''x'', ''b'']))]"
    "rewriteStatement (ReturnStatement (Some (Identifier ''c''))) = ReturnStatement (Some (Identifier ''c''))"
    by (simp_all add: rewriteStatement_def hasExpensiveOperation_def e rewriteDeclarator_def
          scenarioA_identifiers excludeList_def)
  have x: "statementRewritten
          (VariableDeclaration ''const'' [VariableDeclarator (Identifier ''c'') (Some mapCall)])"
    by (simp add: statementRewritten_def hasExpensiveOperation_def e)
  have s: "scenarioA = FunctionDeclaration (Some ''F'') [Identifier ''a'', Identifier ''b'']
          [VariableDeclaration ''const'' [VariableDeclarator (Identifier ''c'') (Some mapCall)],
           ReturnStatement (Some (Identifier ''c''))]"
    by (simp add: scenarioA_def mapCall_def)
  note l = scenarioA_lowered [unfolded s]
  show ?thesis
    unfolding s compileFunction_def l
    by (simp add: scenarioA_analyze scenarioA_codegen r x)
qed

text \<open>
  Claim C7 as stated fails twice on \<open>function F(a, b) { const c = a.map(x => x * b); return c; }\<close>:
  the dependencies of the \<open>.map\<close> call are \<open>{a}\<close> (id 0) alone, and the dependency list the
  statement-level rewrite builds is \<open>[a, x, b]\<close>.
\<close>

theorem scenarioA_dependencies_counterexample:
  "analyze scenarioA_ir = Inr scenarioA_infos
   \<and> map_get scenarioA_infos 3 = Some \<lparr>dependencies = Some [0], instructions = None, shouldMemo = Some True\<rparr>
   \<and> map_get scenarioA_ir 1 = Some (Param ''b'')
   \<and> set [0::nat] \<noteq> {0, 1}
   \<and> compileFunction scenarioA =
       Inr \<lparr>body_out =
              [VariableDeclaration ''const''
                 [VariableDeclarator (Identifier ''c'') (Some (useMemoCall mapCall [''a'', ''x'', ''b'']))],
               ReturnStatement (Some (Identifier ''c''))],
            hasAnyOptimizations = True\<rparr>
   \<and> [''a'', ''x'', ''b''] \<noteq> [''a'', ''b'']"
  by (simp add: scenarioA_analyze scenarioA_compile)
     (simp add: scenarioA_infos_def scenarioA_ir_def map_get_def)

text \<open>
  Claim C7, amended.  For \<open>function F(a, b) { const c = a.map(x => x * b); return c; }\<close>:
  the arrow function is lowered to an opaque constant, so the \<open>Call\<close> for \<open>.map\<close> (id 3) has
  the operands \<open>a\<close> and that constant, and its dependencies are \<open>{a}\<close> (id 0); it is marked
  for memoization but has no mutator, so no set of two or more ids forms, there is no scope
  range, every instruction is passed through and \<open>codegenJS\<close> emits no statement; and the
  statement-level rewrite replaces the initializer of \<open>c\<close> in place with a \<open>useMemo\<close> call
  that wraps the original call in a thunk and carries a dependency list.
\<close>

theorem scenarioA_compiled:
  "readInstructions scenarioA =
     Inr (scenarioA_ir,
          [InstrLine (LoadConstant ''function'') 2, InstrLine (Call 0 (Some ''map'') [RValue 2]) 3,
           InstrLine (Declare ''c'' 3) 4, InstrLine (Return (Some 4)) 5])
   \<and> analyze scenarioA_ir = Inr scenarioA_infos
   \<and> map_get scenarioA_ir 3 = Some (Call 0 (Some ''map'') [RValue 2])
   \<and> map_get scenarioA_ir 0 = Some (Param ''a'')
   \<and> map_get scenarioA_infos 3 = Some \<lparr>dependencies = Some [0], instructions = None, shouldMemo = Some True\<rparr>
   \<and> getInstructionScopeRanges scenarioA_ir scenarioA_infos = Inr []
   \<and> makeReactiveInstrs scenarioA_ir scenarioA_infos = Inr (plainRange scenarioA_ir 0 (length scenarioA_ir))
   \<and> codegenJS scenarioA_ir scenarioA_infos = Inr ([], [])
   \<and> (\<exists>depNames.
        compileFunction scenarioA =
          Inr \<lparr>body_out =
                 [VariableDeclaration ''const''
                    [VariableDeclarator (Identifier ''c'')
                       (Some (CallExpression (Identifier ''useMemo'')
                                [ArrowFunctionExpression [] mapCall,
                                 ArrayExpression (map Identifier depNames)]))],
                  ReturnStatement (Some (Identifier ''c''))],
               hasAnyOptimizations = True\<rparr>)"
proof -
  have "\<exists>depNames.
        compileFunction scenarioA =
          Inr \<lparr>body_out =
                 [VariableDeclaration ''const''
                    [VariableDeclarator (Identifier ''c'')
                       (Some (CallExpression (Identifier ''useMemo'')
                                [ArrowFunctionExpression [] mapCall,
                                 ArrayExpression (map Identifier depNames)]))],
                  ReturnStatement (Some (Identifier ''c''))],
               hasAnyOptimizations = True\<rparr>"
    using scenarioA_compile unfolding useMemoCall_def by blast
  moreover have "map_get scenarioA_ir 3 = Some (Call 0 (Some ''map'') [RValue 2])"
    "map_get scenarioA_ir 0 = Some (Param ''a'')"
    "map_get scenarioA_infos 3 = Some \<lparr>dependencies = Some [0], instructions = None, shouldMemo = Some True\<rparr>"
    by (simp_all add: scenarioA_ir_def scenarioA_infos_def map_get_def)
  ultimately show ?thesis
    using scenarioA_lowered scenarioA_analyze scenarioA_ranges scenarioA_reactive scenarioA_codegen
    by blast
qed

lemma constantOnly_lowered:
  "readInstructions (FunctionDeclaration (Some ''H'') [] [ReturnStatement (Some (Identifier ''k''))]) =
     Inr ([(0, LoadConstant ''k''), (1, Return (Some 0))],
          [InstrLine (LoadConstant ''k'') 0, InstrLine (Return (Some 0)) 1])"
  by (simp add: readInstructions_def emit_def Let_def)

theorem no_seed_no_memo_witness:
  "readInstructions (FunctionDeclaration (Some ''H'') [] [ReturnStatement (Some (Identifier ''k''))]) =
     Inr ([(0, LoadConstant ''k''), (1, Return (Some 0))],
          [InstrLine (LoadConstant ''k'') 0, InstrLine (Return (Some 0)) 1])
   \<and> list_all (noSeed [(0, LoadConstant ''k''), (1, Return (Some 0))])
        [(0, LoadConstant ''k''), (1, Return (Some 0))]
   \<and> compileFunction (FunctionDeclaration (Some ''H'') [] [ReturnStatement (Some (Identifier ''k''))]) =
        Inr \<lparr>body_out = [ReturnStatement (Some (Identifier ''k''))], hasAnyOptimizations = False\<rparr>"
proof -
  have h2: "list_all (noSeed [(0, LoadConstant ''k''), (1, Return (Some 0))])
              [(0, LoadConstant ''k''), (1, Return (Some 0))]"
    by (simp add: noSeed_def isParam_def isHookCall_def)
  from no_seed_no_memo [OF constantOnly_lowered h2] constantOnly_lowered h2 show ?thesis
    by (auto simp: statementRewritten_def rewriteStatement_def)
qed




lemma blockExample_analyze: "analyze blockExample = Inr blockExample_infos"
  by code_simp

lemma blockExample_ranges:
  "getInstructionScopeRanges blockExample blockExample_infos = Inr [\<lparr>scope_start = 1, scope_end = 3\<rparr>]"
  by code_simp

lemma blockExample_makeReactive:
  "makeReactiveInstrs blockExample blockExample_infos = Inr blockExample_reactive"
  by code_simp


lemma map_of_map_set: "map_of (map_set k v m) = (map_of m)(k \<mapsto> v)"
proof (induction m)
  case Nil
  then show ?case by simp
next
  case (Cons a m)
  obtain ka va where a: "a = (ka, va)" by (cases a)
  show ?case
  proof (cases "k = ka")
    case True
    then show ?thesis by (auto simp: a)
  next
    case False
    with Cons.IH show ?thesis by (auto simp: a)
  qed
qed

lemma distinct_map_set: "distinct (map fst m) \<Longrightarrow> distinct (map fst (map_set k v m))"
  by (simp add: map_set_map_fst)

lemma map_has_keys: "map_has m k \<longleftrightarrow> k \<in> set (map fst m)"
  by (simp add: map_has_def)

lemma keys_map_of: "k \<in> set (map fst m) \<longleftrightarrow> (\<exists>v. map_of m k = Some v)"
  by (metis domD domI dom_map_of_conv_image_fst set_map)

lemma ds_keys_parent_update [simp]:
  "ds_keys (ds\<lparr>parent := map_set k v (parent ds)\<rparr>) = insert k (ds_keys ds)"
proof -
  have "set (map fst (map_set k v (parent ds))) = insert k (set (map fst (parent ds)))"
    unfolding map_set_map_fst by auto
  then show ?thesis by (simp add: ds_keys_def)
qed

lemma ds_keys_iff: "k \<in> ds_keys ds \<longleftrightarrow> (\<exists>v. map_of (parent ds) k = Some v)"
  unfolding ds_keys_def by (rule keys_map_of)

lemma ds_keys_insert_update:
  "ds_keys (ds\<lparr>parent := map_set k v (parent ds), rank := y\<rparr>) = insert k (ds_keys ds)"
proof -
  have "set (map fst (map_set k v (parent ds))) = insert k (set (map fst (parent ds)))"
    unfolding map_set_map_fst by auto
  then show ?thesis by (simp add: ds_keys_def)
qed

lemma ds_keys_mem: "k \<in> ds_keys ds \<longleftrightarrow> k \<in> set (map fst (parent ds))"
  by (simp add: ds_keys_def)

lemma rank_of_parent_update [simp]: "rank_of (ds\<lparr>parent := x\<rparr>) = rank_of ds"
  by (rule ext) (simp add: rank_of_def)

lemma rank_of_rank_update:
  "rank_of (ds\<lparr>rank := map_set k v (rank ds)\<rparr>) = (rank_of ds)(k := v)"
  by (rule ext) (simp add: rank_of_def map_get_def map_of_map_set)

lemma ds_rel_empty: "ds_rel emptyDisjointSet (\<lambda>x. x)"
  by (simp add: ds_rel_def emptyDisjointSet_def ds_keys_def rank_of_def map_get_def)

lemma ds_rel_edge:
  assumes "ds_rel ds rep" and "map_of (parent ds) k = Some p"
  shows "p \<in> ds_keys ds" and "rep p = rep k" and "p = k \<Longrightarrow> rep k = k"
    and "p \<noteq> k \<Longrightarrow> rank_of ds k < rank_of ds p"
  using assms unfolding ds_rel_def by blast+

lemma ds_rel_root:
  assumes "ds_rel ds rep" and "k \<in> ds_keys ds"
  shows "map_of (parent ds) (rep k) = Some (rep k)" and "rank_of ds k \<le> rank_of ds (rep k)"
  using assms unfolding ds_rel_def by blast+

lemma ds_rel_outside:
  assumes "ds_rel ds rep" and "k \<notin> ds_keys ds"
  shows "rep k = k" and "rank_of ds k = 0"
  using assms unfolding ds_rel_def by blast+

lemma ds_rel_distinct: "ds_rel ds rep \<Longrightarrow> distinct (map fst (parent ds))"
  unfolding ds_rel_def by blast

lemma ds_relI:
  assumes "distinct (map fst (parent ds))"
    and "\<And>k p. map_of (parent ds) k = Some p \<Longrightarrow>
           p \<in> ds_keys ds \<and> rep p = rep k \<and> (p = k \<longrightarrow> rep k = k) \<and>
           (p \<noteq> k \<longrightarrow> rank_of ds k < rank_of ds p)"
    and "\<And>k. k \<in> ds_keys ds \<Longrightarrow>
           map_of (parent ds) (rep k) = Some (rep k) \<and> rank_of ds k \<le> rank_of ds (rep k)"
    and "\<And>k. k \<notin> ds_keys ds \<Longrightarrow> rep k = k \<and> rank_of ds k = 0"
  shows "ds_rel ds rep"
  unfolding ds_rel_def using assms by blast

text \<open>Inserting a new item as its own parent, with rank 0.\<close>

lemma ds_rel_insert:
  assumes "ds_rel ds rep" and "item \<notin> ds_keys ds"
  shows "ds_rel (ds\<lparr>parent := map_set item item (parent ds), rank := map_set item 0 (rank ds)\<rparr>) rep"
proof -
  let ?ds = "ds\<lparr>parent := map_set item item (parent ds), rank := map_set item 0 (rank ds)\<rparr>"
  have k: "ds_keys ?ds = insert item (ds_keys ds)"
    by (rule ds_keys_insert_update)
  have r0: "rank_of ds item = 0" and ri: "rep item = item"
    using ds_rel_outside [OF assms] by simp_all
  have r: "rank_of ?ds = rank_of ds"
  proof (rule ext)
    fix x show "rank_of ?ds x = rank_of ds x"
      using r0 by (simp add: rank_of_def map_get_def map_of_map_set)
  qed
  have p: "map_of (parent ?ds) = (map_of (parent ds))(item \<mapsto> item)"
    by (simp add: map_of_map_set)
  have none: "map_of (parent ds) item = None"
    using assms(2) by (cases "map_of (parent ds) item") (auto simp: ds_keys_iff)
  have rk: "rep k \<noteq> item" if "k \<in> ds_keys ds" for k
  proof
    assume "rep k = item"
    with ds_rel_root(1) [OF assms(1) that] none show False by simp
  qed
  show ?thesis
  proof (rule ds_relI)
    show "distinct (map fst (parent ?ds))"
      using ds_rel_distinct [OF assms(1)] by (simp add: distinct_map_set)
  next
    fix k q assume a: "map_of (parent ?ds) k = Some q"
    show "q \<in> ds_keys ?ds \<and> rep q = rep k \<and> (q = k \<longrightarrow> rep k = k) \<and>
          (q \<noteq> k \<longrightarrow> rank_of ?ds k < rank_of ?ds q)"
    proof (cases "k = item")
      case True
      with a p have "q = item" by simp
      with True ri k show ?thesis by simp
    next
      case False
      with a p have "map_of (parent ds) k = Some q" by simp
      from ds_rel_edge [OF assms(1) this] show ?thesis
        unfolding k r by blast
    qed
  next
    fix k assume a: "k \<in> ds_keys ?ds"
    show "map_of (parent ?ds) (rep k) = Some (rep k) \<and> rank_of ?ds k \<le> rank_of ?ds (rep k)"
    proof (cases "k = item")
      case True
      with ri p show ?thesis by simp
    next
      case False
      with a k have kk: "k \<in> ds_keys ds" by simp
      from ds_rel_root [OF assms(1) kk] rk [OF kk] show ?thesis
        unfolding r p by simp
    qed
  next
    fix k assume "k \<notin> ds_keys ?ds"
    then have "k \<notin> ds_keys ds" unfolding k by simp
    from ds_rel_outside [OF assms(1) this] show "rep k = k \<and> rank_of ?ds k = 0"
      unfolding r by simp
  qed
qed

text \<open>Path compression: pointing a key at its representative.\<close>

lemma ds_rel_compress:
  assumes "ds_rel ds rep" and "item \<in> ds_keys ds"
  shows "ds_rel (ds\<lparr>parent := map_set item (rep item) (parent ds)\<rparr>) rep"
proof -
  let ?ds = "ds\<lparr>parent := map_set item (rep item) (parent ds)\<rparr>"
  have k: "ds_keys ?ds = ds_keys ds" using assms(2) by auto
  have r: "rank_of ?ds = rank_of ds" by simp
  have p: "map_of (parent ?ds) = (map_of (parent ds))(item \<mapsto> rep item)"
    by (simp add: map_of_map_set)
  have root: "map_of (parent ds) (rep item) = Some (rep item)"
    and le: "rank_of ds item \<le> rank_of ds (rep item)"
    using ds_rel_root [OF assms] by simp_all
  have rin: "rep item \<in> ds_keys ds"
    using root by (auto simp: ds_keys_iff)
  have rr: "rep (rep item) = rep item"
    using ds_rel_edge(3) [OF assms(1) root refl] .
  obtain q0 where q0: "map_of (parent ds) item = Some q0"
    using assms(2) by (auto simp: ds_keys_iff)
  have lt: "rank_of ds item < rank_of ds (rep item)" if ne: "rep item \<noteq> item"
  proof -
    note e = ds_rel_edge [OF assms(1) q0]
    from e(3) ne have "q0 \<noteq> item" by blast
    from e(4) [OF this] have "rank_of ds item < rank_of ds q0" .
    moreover from ds_rel_root(2) [OF assms(1) e(1)] have "rank_of ds q0 \<le> rank_of ds (rep q0)" .
    ultimately show ?thesis using e(2) by simp
  qed
  show ?thesis
  proof (rule ds_relI)
    show "distinct (map fst (parent ?ds))"
      using ds_rel_distinct [OF assms(1)] by (simp add: distinct_map_set)
  next
    fix k q assume a: "map_of (parent ?ds) k = Some q"
    show "q \<in> ds_keys ?ds \<and> rep q = rep k \<and> (q = k \<longrightarrow> rep k = k) \<and>
          (q \<noteq> k \<longrightarrow> rank_of ?ds k < rank_of ?ds q)"
    proof (cases "k = item")
      case True
      with a p have "q = rep item" by simp
      with True rin rr lt show ?thesis unfolding k r by auto
    next
      case False
      with a p have "map_of (parent ds) k = Some q" by simp
      from ds_rel_edge [OF assms(1) this] show ?thesis
        unfolding k r by blast
    qed
  next
    fix k assume "k \<in> ds_keys ?ds"
    then have kk: "k \<in> ds_keys ds" unfolding k .
    note b = ds_rel_root [OF assms(1) kk]
    have "map_of (parent ?ds) (rep k) = Some (rep k)"
    proof (cases "rep k = item")
      case True
      with b(1) have "map_of (parent ds) item = Some item" by simp
      from ds_rel_edge(3) [OF assms(1) this] have "rep item = item" by simp
      with True p show ?thesis by simp
    next
      case False
      with b(1) p show ?thesis by simp
    qed
    with b(2) show "map_of (parent ?ds) (rep k) = Some (rep k) \<and> rank_of ?ds k \<le> rank_of ?ds (rep k)"
      unfolding r by simp
  next
    fix k assume "k \<notin> ds_keys ?ds"
    then have "k \<notin> ds_keys ds" unfolding k .
    from ds_rel_outside [OF assms(1) this] show "rep k = k \<and> rank_of ?ds k = 0"
      unfolding r by simp
  qed
qed

lemma above_parent:
  assumes "ds_rel ds rep" and "map_of (parent ds) item = Some p" and "p \<noteq> item"
  shows "card (above ds p) < card (above ds item)"
proof -
  have r: "rank_of ds item < rank_of ds p" and pk: "p \<in> ds_keys ds"
    using ds_rel_edge(4) [OF assms(1,2)] ds_rel_edge(1) [OF assms(1,2)] assms(3) by simp_all
  have "above ds p \<subseteq> above ds item" using r by (auto simp: above_def)
  moreover have "p \<in> above ds item" "p \<notin> above ds p" using r pk by (auto simp: above_def)
  ultimately have "above ds p \<subset> above ds item" by auto
  moreover have "finite (above ds item)" by (simp add: above_def ds_keys_def)
  ultimately show ?thesis by (rule psubset_card_mono [rotated])
qed

lemma ds_find_rec_correct:
  assumes "ds_rel ds rep" and "0 < fuel" and "item \<in> ds_keys ds \<longrightarrow> card (above ds item) < fuel"
  shows "\<exists>ds'. ds_find_rec fuel ds item = Inr (ds', rep item) \<and> ds_rel ds' rep \<and>
           rank_of ds' = rank_of ds \<and>
           map fst (parent ds') = set_add item (map fst (parent ds))"
  using assms
proof (induction fuel arbitrary: ds item)
  case 0
  then show ?case by simp
next
  case (Suc fuel)
  show ?case
  proof (cases "item \<in> ds_keys ds")
    case False
    let ?ds = "ds\<lparr>parent := map_set item item (parent ds), rank := map_set item 0 (rank ds)\<rparr>"
    have ri: "rep item = item" and r0: "rank_of ds item = 0"
      using ds_rel_outside [OF Suc.prems(1) False] by simp_all
    have r: "rank_of ?ds = rank_of ds"
    proof (rule ext)
      fix x show "rank_of ?ds x = rank_of ds x"
        using r0 by (simp add: rank_of_def map_get_def map_of_map_set)
    qed
    have nk: "item \<notin> set (map fst (parent ds))" using False unfolding ds_keys_def .
    have "map fst (parent ?ds) = set_add item (map fst (parent ds))"
      using nk by (simp add: map_set_map_fst set_add_def del: set_map)
    moreover have "ds_find_rec (Suc fuel) ds item = Inr (?ds, item)"
      using nk by (simp add: map_has_def map_get_def map_of_map_set Let_def del: set_map)
    ultimately show ?thesis
      using ds_rel_insert [OF Suc.prems(1) False] ri r by auto
  next
    case True
    then obtain p where p: "map_of (parent ds) item = Some p"
      by (auto simp: ds_keys_iff)
    have ik: "item \<in> set (map fst (parent ds))" using True unfolding ds_keys_def .
    have same: "set_add item (map fst (parent ds)) = map fst (parent ds)"
      using ik by (simp add: set_add_def del: set_map)
    show ?thesis
    proof (cases "p = item")
      case True
      with ds_rel_edge(3) [OF Suc.prems(1) p] have "rep item = item" by simp
      moreover have "ds_find_rec (Suc fuel) ds item = Inr (ds, item)"
        using ik p True
        by (simp add: map_has_def map_get_def Let_def del: set_map)
      ultimately show ?thesis using Suc.prems(1) same by auto
    next
      case False
      have pk: "p \<in> ds_keys ds" and rp: "rep p = rep item"
        using ds_rel_edge(1,2) [OF Suc.prems(1) p] by simp_all
      have "card (above ds p) < card (above ds item)"
        using above_parent [OF Suc.prems(1) p False] .
      with Suc.prems(3) True have c: "card (above ds p) < fuel" by simp
      then have f: "0 < fuel" by simp
      from Suc.IH [OF Suc.prems(1) f] c obtain ds2 where
        d: "ds_find_rec fuel ds p = Inr (ds2, rep p)" "ds_rel ds2 rep" "rank_of ds2 = rank_of ds"
           "map fst (parent ds2) = set_add p (map fst (parent ds))"
        by blast
      have "p \<in> set (map fst (parent ds))" using pk unfolding ds_keys_def .
      then have k2: "map fst (parent ds2) = map fst (parent ds)"
        using d(4) by (simp add: set_add_def del: set_map)
      then have ik2: "item \<in> ds_keys ds2" using True by (simp add: ds_keys_def)
      let ?ds = "ds2\<lparr>parent := map_set item (rep item) (parent ds2)\<rparr>"
      have "ds_find_rec (Suc fuel) ds item = Inr (?ds, rep item)"
        using ik p False d(1) rp
        by (simp add: map_has_def map_get_def Let_def del: set_map)
      moreover have "ds_rel ?ds rep" using ds_rel_compress [OF d(2) ik2] .
      moreover have "rank_of ?ds = rank_of ds" using d(3) by simp
      moreover have "map fst (parent ?ds) = set_add item (map fst (parent ds))"
        using ik k2 same by (simp add: map_set_map_fst del: set_map)
      ultimately show ?thesis by blast
    qed
  qed
qed

lemma ds_find_correct:
  assumes "ds_rel ds rep"
  shows "\<exists>ds'. ds_find ds item = Inr (ds', rep item) \<and> ds_rel ds' rep \<and>
           rank_of ds' = rank_of ds \<and>
           map fst (parent ds') = set_add item (map fst (parent ds))"
proof -
  have "card (above ds item) \<le> card (ds_keys ds)"
    by (rule card_mono) (auto simp: above_def ds_keys_def)
  also have "\<dots> \<le> length (parent ds)"
    unfolding ds_keys_def using card_length [of "map fst (parent ds)"] by simp
  finally have "card (above ds item) < Suc (length (parent ds))" by simp
  with ds_find_rec_correct [OF assms, of "Suc (length (parent ds))" item] show ?thesis
    by (simp add: ds_find_def)
qed

lemma equivalence_ker: "equivalence (ker rep)"
  by (simp add: equivalence_def ker_def)

lemma equivalenceD:
  assumes "equivalence E"
  shows "(x, x) \<in> E" and "(x, y) \<in> E \<Longrightarrow> (y, x) \<in> E"
    and "(x, y) \<in> E \<Longrightarrow> (y, z) \<in> E \<Longrightarrow> (x, z) \<in> E"
  using assms unfolding equivalence_def by blast+

text \<open>Linking the root \<open>c\<close> under the root \<open>r\<close>, whose rank becomes \<open>n\<close>.\<close>

lemma ds_rel_link:
  assumes rel: "ds_rel ds rep"
    and c: "map_of (parent ds) c = Some c" and r: "map_of (parent ds) r = Some r" and ne: "c \<noteq> r"
    and p': "parent ds' = map_set c r (parent ds)"
    and rk': "rank_of ds' = (rank_of ds)(r := n)"
    and lt: "rank_of ds c < n" and le: "rank_of ds r \<le> n"
  shows "ds_rel ds' (\<lambda>x. if rep x = c then r else rep x)"
proof -
  let ?rep = "\<lambda>x. if rep x = c then r else rep x"
  have ck: "c \<in> ds_keys ds" and rkey: "r \<in> ds_keys ds" using c r by (auto simp: ds_keys_iff)
  have k: "ds_keys ds' = ds_keys ds"
  proof -
    have "set (map fst (map_set c r (parent ds))) = insert c (set (map fst (parent ds)))"
      unfolding map_set_map_fst by auto
    with ck show ?thesis by (auto simp: ds_keys_def p')
  qed
  have m: "map_of (parent ds') = (map_of (parent ds))(c \<mapsto> r)"
    by (simp add: p' map_of_map_set)
  have rc: "rep c = c" using ds_rel_edge(3) [OF rel c refl] .
  have rr: "rep r = r" using ds_rel_edge(3) [OF rel r refl] .
  show ?thesis
  proof (rule ds_relI)
    show "distinct (map fst (parent ds'))"
      using ds_rel_distinct [OF rel] by (simp add: p' distinct_map_set)
  next
    fix k q assume a: "map_of (parent ds') k = Some q"
    show "q \<in> ds_keys ds' \<and> ?rep q = ?rep k \<and> (q = k \<longrightarrow> ?rep k = k) \<and>
          (q \<noteq> k \<longrightarrow> rank_of ds' k < rank_of ds' q)"
    proof (cases "k = c")
      case True
      with a m have q: "q = r" by simp
      show ?thesis
        unfolding k rk' using q True rkey rc rr ne lt by simp
    next
      case False
      with a m have e: "map_of (parent ds) k = Some q" by simp
      note d = ds_rel_edge [OF rel e]
      have 1: "?rep q = ?rep k" using d(2) by simp
      have 2: "q = k \<longrightarrow> ?rep k = k" using d(3) False by auto
      have 3: "q \<noteq> k \<longrightarrow> rank_of ds' k < rank_of ds' q"
      proof
        assume qk: "q \<noteq> k"
        have "k \<noteq> r" using e r qk by auto
        with d(4) [OF qk] le show "rank_of ds' k < rank_of ds' q"
          unfolding rk' by (cases "q = r") auto
      qed
      from d(1) 1 2 3 show ?thesis unfolding k by blast
    qed
  next
    fix k assume "k \<in> ds_keys ds'"
    then have kk: "k \<in> ds_keys ds" unfolding k .
    note b = ds_rel_root [OF rel kk]
    show "map_of (parent ds') (?rep k) = Some (?rep k) \<and> rank_of ds' k \<le> rank_of ds' (?rep k)"
    proof (cases "rep k = c")
      case True
      then have "k \<noteq> r" using rr ne by auto
      with True b(2) lt r ne show ?thesis unfolding m rk' by auto
    next
      case False
      show ?thesis
      proof (cases "k = r")
        case True
        with rr r ne show ?thesis unfolding m rk' by simp
      next
        case kr: False
        have "map_of (parent ds') (rep k) = Some (rep k)" using b(1) False unfolding m by simp
        moreover have "rank_of ds' k \<le> rank_of ds' (rep k)"
          using b(2) le kr unfolding rk' by (cases "rep k = r") auto
        ultimately show ?thesis using False by simp
      qed
    qed
  next
    fix k assume "k \<notin> ds_keys ds'"
    then have kk: "k \<notin> ds_keys ds" unfolding k .
    note o = ds_rel_outside [OF rel kk]
    have "k \<noteq> r" "k \<noteq> c" using kk rkey ck by auto
    with o show "?rep k = k \<and> rank_of ds' k = 0" unfolding rk' by auto
  qed
qed

lemma ker_link:
  assumes "rep a = ra" and "rep b = rb" and "rep ra = ra" and "rep rb = rb"
  shows "ker rep \<subseteq> ker (\<lambda>x. if rep x = ra then rb else rep x)"
    and "(a, b) \<in> ker (\<lambda>x. if rep x = ra then rb else rep x)"
    and "equivalence E \<Longrightarrow> ker rep \<subseteq> E \<Longrightarrow> (a, b) \<in> E \<Longrightarrow>
         ker (\<lambda>x. if rep x = ra then rb else rep x) \<subseteq> E"
proof -
  show "ker rep \<subseteq> ker (\<lambda>x. if rep x = ra then rb else rep x)"
    by (auto simp: ker_def)
  show "(a, b) \<in> ker (\<lambda>x. if rep x = ra then rb else rep x)"
    using assms by (auto simp: ker_def)
  assume E: "equivalence E" and sub: "ker rep \<subseteq> E" and ab: "(a, b) \<in> E"
  have xa: "(x, a) \<in> E" if "rep x = ra" for x
    using sub that assms(1) by (auto simp: ker_def)
  have xb: "(x, b) \<in> E" if "rep x = rb" for x
    using sub that assms(2) by (auto simp: ker_def)
  have cls: "(x, b) \<in> E" if "rep x = ra \<or> rep x = rb" for x
    using that xa xb ab equivalenceD(3) [OF E] by blast
  show "ker (\<lambda>x. if rep x = ra then rb else rep x) \<subseteq> E"
  proof
    fix z assume z: "z \<in> ker (\<lambda>x. if rep x = ra then rb else rep x)"
    obtain x y where xy: "z = (x, y)" by (cases z)
    from z xy have h: "(if rep x = ra then rb else rep x) = (if rep y = ra then rb else rep y)"
      by (simp add: ker_def)
    show "z \<in> E"
    proof (cases "rep x = rep y")
      case True
      with sub xy show ?thesis by (auto simp: ker_def)
    next
      case False
      with h have "(rep x = ra \<or> rep x = rb) \<and> (rep y = ra \<or> rep y = rb)"
        by (auto split: if_splits)
      then have "(x, b) \<in> E" "(y, b) \<in> E" using cls by blast+
      with equivalenceD(2,3) [OF E] xy show ?thesis by blast
    qed
  qed
qed

lemma grows_refl: "grows rep rep {}"
  by (simp add: grows_def)

lemma grows_same: "(a, b) \<in> ker rep \<Longrightarrow> grows rep rep {(a, b)}"
  by (simp add: grows_def)

lemma grows_trans:
  assumes "grows rep rep1 n1" and "grows rep1 rep2 n2"
  shows "grows rep rep2 (n1 \<union> n2)"
proof -
  from assms have a: "ker rep \<subseteq> ker rep1" "n1 \<subseteq> ker rep1" "ker rep1 \<subseteq> ker rep2" "n2 \<subseteq> ker rep2"
    by (simp_all add: grows_def)
  have l1: "ker rep1 \<subseteq> E" if "equivalence E" "ker rep \<subseteq> E" "n1 \<subseteq> E" for E
    using assms(1) that unfolding grows_def by blast
  have l2: "ker rep2 \<subseteq> E" if "equivalence E" "ker rep1 \<subseteq> E" "n2 \<subseteq> E" for E
    using assms(2) that unfolding grows_def by blast
  show ?thesis
    unfolding grows_def
  proof (intro conjI allI impI)
    show "ker rep \<subseteq> ker rep2" using a by blast
    show "n1 \<union> n2 \<subseteq> ker rep2" using a by blast
    fix E assume E: "equivalence E" "ker rep \<subseteq> E" "n1 \<union> n2 \<subseteq> E"
    then have "n1 \<subseteq> E" "n2 \<subseteq> E" by blast+
    with l1 [OF E(1,2)] l2 [OF E(1)] show "ker rep2 \<subseteq> E" by blast
  qed
qed

lemma grows_link:
  assumes "rep a = ra" and "rep b = rb" and "rep ra = ra" and "rep rb = rb"
  shows "grows rep (\<lambda>x. if rep x = ra then rb else rep x) {(a, b)}"
proof -
  note k = ker_link [OF assms]
  show ?thesis
    unfolding grows_def
  proof (intro conjI allI impI)
    show "ker rep \<subseteq> ker (\<lambda>x. if rep x = ra then rb else rep x)" by (rule k(1))
    show "{(a, b)} \<subseteq> ker (\<lambda>x. if rep x = ra then rb else rep x)" using k(2) by simp
    fix E assume "equivalence E" "ker rep \<subseteq> E" "{(a, b)} \<subseteq> E"
    then show "ker (\<lambda>x. if rep x = ra then rb else rep x) \<subseteq> E" using k(3) [of E] by simp
  qed
qed

lemma grows_link_sym:
  assumes "rep a = ra" and "rep b = rb" and "rep ra = ra" and "rep rb = rb"
  shows "grows rep (\<lambda>x. if rep x = rb then ra else rep x) {(a, b)}"
proof -
  have g: "grows rep (\<lambda>x. if rep x = rb then ra else rep x) {(b, a)}"
    using grows_link [OF assms(2,1,4,3)] .
  show ?thesis
    unfolding grows_def
  proof (intro conjI allI impI)
    from g have g1: "ker rep \<subseteq> ker (\<lambda>x. if rep x = rb then ra else rep x)"
      and g2: "{(b, a)} \<subseteq> ker (\<lambda>x. if rep x = rb then ra else rep x)"
      unfolding grows_def by blast+
    show "ker rep \<subseteq> ker (\<lambda>x. if rep x = rb then ra else rep x)" by (rule g1)
    from g2 have "(b, a) \<in> ker (\<lambda>x. if rep x = rb then ra else rep x)" by simp
    then have "(a, b) \<in> ker (\<lambda>x. if rep x = rb then ra else rep x)"
      using equivalenceD(2) [OF equivalence_ker] by blast
    then show "{(a, b)} \<subseteq> ker (\<lambda>x. if rep x = rb then ra else rep x)" by simp
    fix E assume E: "equivalence E" "ker rep \<subseteq> E" "{(a, b)} \<subseteq> E"
    from E(3) have "(a, b) \<in> E" by simp
    then have "(b, a) \<in> E" using equivalenceD(2) [OF E(1)] by blast
    then have ba: "{(b, a)} \<subseteq> E" by simp
    from g have "\<forall>E. equivalence E \<longrightarrow> ker rep \<subseteq> E \<longrightarrow> {(b, a)} \<subseteq> E \<longrightarrow>
                    ker (\<lambda>x. if rep x = rb then ra else rep x) \<subseteq> E"
      unfolding grows_def by blast
    with E(1,2) ba show "ker (\<lambda>x. if rep x = rb then ra else rep x) \<subseteq> E" by blast
  qed
qed

lemma set_set_add_keys: "set (set_add x xs) = insert x (set xs)"
  by (auto simp: set_add_def)

lemma unionTwo_correct:
  assumes "ds_rel ds rep"
  shows "\<exists>ds' rep'. unionTwo a b ds = Inr ds' \<and> ds_rel ds' rep' \<and> grows rep rep' {(a, b)} \<and>
           ds_keys ds' = insert b (insert a (ds_keys ds))"
proof -
  obtain ds1 where f1: "ds_find ds a = Inr (ds1, rep a)" and r1: "ds_rel ds1 rep"
    and k1: "map fst (parent ds1) = set_add a (map fst (parent ds))"
    using ds_find_correct [OF assms, of a] by blast
  obtain ds2 where f2: "ds_find ds1 b = Inr (ds2, rep b)" and r2: "ds_rel ds2 rep"
    and k2: "map fst (parent ds2) = set_add b (map fst (parent ds1))"
    using ds_find_correct [OF r1, of b] by blast
  have keys1: "ds_keys ds1 = insert a (ds_keys ds)"
    unfolding ds_keys_def k1 by (rule set_set_add_keys)
  have keys2: "ds_keys ds2 = insert b (insert a (ds_keys ds))"
    using keys1 unfolding ds_keys_def k2 by (simp only: set_set_add_keys)
  have ak: "a \<in> ds_keys ds2" and bk: "b \<in> ds_keys ds2" using keys2 by simp_all
  let ?ra = "rep a" and ?rb = "rep b"
  have pa: "map_of (parent ds2) ?ra = Some ?ra" using ds_rel_root(1) [OF r2 ak] .
  have pb: "map_of (parent ds2) ?rb = Some ?rb" using ds_rel_root(1) [OF r2 bk] .
  have rra: "rep ?ra = ?ra" using ds_rel_edge(3) [OF r2 pa refl] .
  have rrb: "rep ?rb = ?rb" using ds_rel_edge(3) [OF r2 pb refl] .
  have rak: "?ra \<in> ds_keys ds2" and rbk: "?rb \<in> ds_keys ds2" using pa pb by (auto simp: ds_keys_iff)
  show ?thesis
  proof (cases "?ra = ?rb")
    case True
    then have "unionTwo a b ds = Inr ds2" by (simp add: unionTwo_def f1 f2)
    moreover have "grows rep rep {(a, b)}" using True by (intro grows_same) (simp add: ker_def)
    ultimately show ?thesis using r2 keys2 by blast
  next
    case False
    consider (lt) "rank_of ds2 ?ra < rank_of ds2 ?rb" | (gt) "rank_of ds2 ?rb < rank_of ds2 ?ra"
      | (eq) "rank_of ds2 ?ra = rank_of ds2 ?rb" by linarith
    then show ?thesis
    proof cases
      case lt
      let ?ds = "ds2\<lparr>parent := map_set ?ra ?rb (parent ds2)\<rparr>"
      have u: "unionTwo a b ds = Inr ?ds" using False lt by (simp add: unionTwo_def f1 f2 Let_def)
      have "ds_rel ?ds (\<lambda>x. if rep x = ?ra then ?rb else rep x)"
        using lt by (intro ds_rel_link [OF r2 pa pb False, where n = "rank_of ds2 ?rb"]) auto
      moreover have "grows rep (\<lambda>x. if rep x = ?ra then ?rb else rep x) {(a, b)}"
        using grows_link [OF refl refl rra rrb] .
      moreover have "ds_keys ?ds = insert b (insert a (ds_keys ds))"
        using keys2 rak by auto
      ultimately show ?thesis using u by blast
    next
      case gt
      let ?ds = "ds2\<lparr>parent := map_set ?rb ?ra (parent ds2)\<rparr>"
      have u: "unionTwo a b ds = Inr ?ds" using False gt by (simp add: unionTwo_def f1 f2 Let_def)
      have "ds_rel ?ds (\<lambda>x. if rep x = ?rb then ?ra else rep x)"
        using gt False by (intro ds_rel_link [OF r2 pb pa, where n = "rank_of ds2 ?ra"]) auto
      moreover have "grows rep (\<lambda>x. if rep x = ?rb then ?ra else rep x) {(a, b)}"
        using grows_link_sym [OF refl refl rra rrb] .
      moreover have "ds_keys ?ds = insert b (insert a (ds_keys ds))"
        using keys2 rbk by auto
      ultimately show ?thesis using u by blast
    next
      case eq
      let ?ds = "ds2\<lparr>parent := map_set ?rb ?ra (parent ds2),
                      rank := map_set ?ra (rank_of ds2 ?ra + 1) (rank ds2)\<rparr>"
      have u: "unionTwo a b ds = Inr ?ds" using False eq by (simp add: unionTwo_def f1 f2 Let_def)
      have rk: "rank_of ?ds = (rank_of ds2)(?ra := rank_of ds2 ?ra + 1)"
        by (rule ext) (simp add: rank_of_def map_get_def map_of_map_set)
      have "ds_rel ?ds (\<lambda>x. if rep x = ?rb then ?ra else rep x)"
        using eq False by (intro ds_rel_link [OF r2 pb pa _ _ rk]) auto
      moreover have "grows rep (\<lambda>x. if rep x = ?rb then ?ra else rep x) {(a, b)}"
        using grows_link_sym [OF refl refl rra rrb] .
      moreover have "ds_keys ?ds = insert b (insert a (ds_keys ds))"
        using keys2 rbk ds_keys_insert_update [where ds = ds2 and k = ?rb and v = ?ra] by auto
      ultimately show ?thesis using u by blast
    qed
  qed
qed

lemma grows_weaken: "grows rep rep' new \<Longrightarrow> new = new' \<Longrightarrow> grows rep rep' new'"
  by simp

lemma unionLoop_correct:
  assumes "ds_rel ds rep"
  shows "\<exists>ds' rep'. unionLoop first xs ds = Inr ds' \<and> ds_rel ds' rep' \<and>
           grows rep rep' ((\<lambda>x. (first, x)) ` set xs) \<and>
           ds_keys ds' = ds_keys ds \<union> (if xs = [] then {} else insert first (set xs))"
  using assms
proof (induction xs arbitrary: ds rep)
  case Nil
  then show ?case using grows_refl [of rep] by auto
next
  case (Cons x xs)
  from unionTwo_correct [OF Cons.prems, of first x] obtain ds1 rep1 where
    u: "unionTwo first x ds = Inr ds1" and r1: "ds_rel ds1 rep1" and
    g1: "grows rep rep1 {(first, x)}" and k1: "ds_keys ds1 = insert x (insert first (ds_keys ds))"
    by blast
  from Cons.IH [OF r1] obtain ds' rep' where
    l: "unionLoop first xs ds1 = Inr ds'" and r': "ds_rel ds' rep'" and
    g2: "grows rep1 rep' ((\<lambda>x. (first, x)) ` set xs)" and
    k2: "ds_keys ds' = ds_keys ds1 \<union> (if xs = [] then {} else insert first (set xs))"
    by blast
  have "grows rep rep' ((\<lambda>x. (first, x)) ` set (x # xs))"
    using grows_trans [OF g1 g2] by (rule grows_weaken) auto
  moreover have "ds_keys ds' = ds_keys ds \<union> insert first (set (x # xs))"
    using k1 k2 by auto
  moreover have "unionLoop first (x # xs) ds = Inr ds'" using u l by simp
  ultimately show ?case using r' by auto
qed

lemma ds_union_correct:
  assumes "ds_rel ds rep"
  shows "\<exists>ds' rep'. ds_union items ds = Inr ds' \<and> ds_rel ds' rep' \<and>
           grows rep rep' (pairsOf items) \<and> ds_keys ds' = ds_keys ds \<union> keysOf items"
proof (cases items)
  case Nil
  with assms grows_refl [of rep] show ?thesis
    by (auto simp: ds_union_def pairsOf_def keysOf_def)
next
  case (Cons first rest)
  show ?thesis
  proof (cases rest)
    case Nil
    with Cons assms grows_refl [of rep] show ?thesis
      by (auto simp: ds_union_def pairsOf_def keysOf_def)
  next
    case (Cons x xs)
    from unionLoop_correct [OF assms, of first "x # xs"] obtain ds' rep' where
      l: "unionLoop first (x # xs) ds = Inr ds'" and r': "ds_rel ds' rep'" and
      g: "grows rep rep' ((\<lambda>y. (first, y)) ` set (x # xs))" and
      k: "ds_keys ds' = ds_keys ds \<union> insert first (set (x # xs))"
      by auto
    have "ds_union items ds = Inr ds'"
      using l \<open>items = first # rest\<close> Cons by (simp add: ds_union_def)
    moreover have "grows rep rep' (pairsOf items)"
      using g \<open>items = first # rest\<close> Cons by (simp add: pairsOf_def)
    moreover have "ds_keys ds' = ds_keys ds \<union> keysOf items"
      using k \<open>items = first # rest\<close> Cons by (simp add: keysOf_def)
    ultimately show ?thesis using r' by blast
  qed
qed

lemma unionEach_append:
  "unionEach (xs @ ys) ds = (case unionEach xs ds of Inl e \<Rightarrow> Inl e | Inr ds' \<Rightarrow> unionEach ys ds')"
  by (induction xs arbitrary: ds) (auto split: sum.splits)

lemma unionAll_unionEach: "unionAll func valuesInfo ds = unionEach (unionRequests func valuesInfo) ds"
proof (induction func arbitrary: ds)
  case Nil
  then show ?case by (simp add: unionRequests_def)
next
  case (Cons x rest)
  obtain i instr where x: "x = (i, instr)" by (cases x)
  have u: "unionRequests ((i, instr) # rest) valuesInfo =
        (case map_get valuesInfo i of
           None \<Rightarrow> []
         | Some info \<Rightarrow>
             if shouldMemoize info
             then [(case instructions info of None \<Rightarrow> [] | Some ms \<Rightarrow> ms) @ [i]]
             else []) @ unionRequests rest valuesInfo"
    by (simp add: unionRequests_def)
  show ?case
  proof (cases "map_get valuesInfo i")
    case None
    then show ?thesis unfolding x u using Cons.IH by simp
  next
    case (Some info)
    then show ?thesis unfolding x u using Cons.IH
      by (cases "shouldMemoize info") (auto split: sum.splits)
  qed
qed

lemma unionEach_correct:
  assumes "ds_rel ds rep"
  shows "\<exists>ds' rep'. unionEach reqs ds = Inr ds' \<and> ds_rel ds' rep' \<and>
           grows rep rep' (requestPairs reqs) \<and> ds_keys ds' = ds_keys ds \<union> requestKeys reqs"
  using assms
proof (induction reqs arbitrary: ds rep)
  case Nil
  then show ?case using grows_refl [of rep] by (auto simp: requestPairs_def requestKeys_def)
next
  case (Cons items rest)
  from ds_union_correct [OF Cons.prems, of items] obtain ds1 rep1 where
    u: "ds_union items ds = Inr ds1" and r1: "ds_rel ds1 rep1" and
    g1: "grows rep rep1 (pairsOf items)" and k1: "ds_keys ds1 = ds_keys ds \<union> keysOf items"
    by blast
  from Cons.IH [OF r1] obtain ds' rep' where
    l: "unionEach rest ds1 = Inr ds'" and r': "ds_rel ds' rep'" and
    g2: "grows rep1 rep' (requestPairs rest)" and
    k2: "ds_keys ds' = ds_keys ds1 \<union> requestKeys rest"
    by blast
  have "grows rep rep' (requestPairs (items # rest))"
    using grows_trans [OF g1 g2] by (rule grows_weaken) (simp add: requestPairs_def)
  moreover have "ds_keys ds' = ds_keys ds \<union> requestKeys (items # rest)"
    using k1 k2 by (auto simp: requestKeys_def)
  moreover have "unionEach (items # rest) ds = Inr ds'" using u l by simp
  ultimately show ?case using r' by blast
qed

lemma unionAll_correct:
  assumes "ds_rel ds rep"
  shows "\<exists>ds' rep'. unionAll func valuesInfo ds = Inr ds' \<and> ds_rel ds' rep' \<and>
           grows rep rep' (requestPairs (unionRequests func valuesInfo)) \<and>
           ds_keys ds' = ds_keys ds \<union> requestKeys (unionRequests func valuesInfo)"
  unfolding unionAll_unionEach using unionEach_correct [OF assms] .

lemma map_set_absent: "k \<notin> set (map fst m) \<Longrightarrow> map_set k v m = m @ [(k, v)]"
  by (induction m) auto

lemma map_set_present:
  "distinct (map fst m) \<Longrightarrow> (k, old) \<in> set m \<Longrightarrow>
   set (map_set k v m) = insert (k, v) (set m - {(k, old)})"
proof (induction m)
  case Nil
  then show ?case by simp
next
  case (Cons a m)
  obtain ka va where a: "a = (ka, va)" by (cases a)
  show ?case
  proof (cases "k = ka")
    case True
    with Cons.prems a have "va = old" by (auto simp: image_iff)
    moreover from Cons.prems a True have "(k, old) \<notin> set m" by (auto simp: image_iff)
    ultimately show ?thesis using True a by auto
  next
    case False
    with Cons.prems a have "(k, old) \<in> set m" "distinct (map fst m)" by auto
    from Cons.IH [OF this(2,1)] False a show ?thesis by auto
  qed
qed

lemma map_set_last: "k \<notin> set (map fst m) \<Longrightarrow> map_set k v (m @ [(k, w)]) = m @ [(k, v)]"
  by (induction m) auto

lemma addToGroup_absent:
  assumes "root \<notin> set (map fst groups)"
  shows "addToGroup root item groups = groups @ [(root, [item])]"
proof -
  from assms have n: "map_of groups root = None" by (simp add: map_of_eq_None_iff)
  have "map_of (groups @ [(root, [])]) root = Some []"
    using n by (simp add: map_add_def)
  then show ?thesis
    using assms unfolding addToGroup_def map_has_def map_get_def Let_def
    by (simp only: map_set_absent [OF assms] map_set_last [OF assms] if_True simp_thms option.case append_Nil)
qed

lemma addToGroup_present:
  assumes "distinct (map fst groups)" and "(root, old) \<in> set groups"
  shows "addToGroup root item groups = map_set root (old @ [item]) groups"
proof -
  from assms have "map_of groups root = Some old" by simp
  moreover from assms(2) have "root \<in> set (map fst groups)" by force
  ultimately show ?thesis
    by (simp add: addToGroup_def map_has_def map_get_def Let_def)
qed

lemma groups_rel_step:
  assumes "groups_rel rep items groups"
  shows "groups_rel rep (items @ [item]) (addToGroup (rep item) item groups)"
proof (cases "rep item \<in> set (map fst groups)")
  case False
  with assms have n: "rep item \<notin> rep ` set items" by (simp add: groups_rel_def)
  then have "\<forall>k \<in> set items. rep k \<noteq> rep item" by (metis imageI)
  then have e: "groupOf rep items (rep item) = []"
    by (simp add: groupOf_def filter_empty_conv)
  have "\<forall>(r, g) \<in> set groups. groupOf rep (items @ [item]) r = g"
  proof (clarify)
    fix r g assume m: "(r, g) \<in> set groups"
    with assms have g: "g = groupOf rep items r" by (auto simp: groups_rel_def)
    from m False have "r \<noteq> rep item" by (auto simp: image_iff)
    with g show "groupOf rep (items @ [item]) r = g" by (simp add: groupOf_def)
  qed
  with assms False e show ?thesis
    unfolding addToGroup_absent [OF False] groups_rel_def
    by (auto simp: groupOf_def)
next
  case True
  then obtain old where o: "(rep item, old) \<in> set groups" by force
  from assms have d: "distinct (map fst groups)" by (simp add: groups_rel_def)
  from assms o have old: "old = groupOf rep items (rep item)" by (auto simp: groups_rel_def)
  have s: "set (map_set (rep item) (old @ [item]) groups)
           = insert (rep item, old @ [item]) (set groups - {(rep item, old)})"
    by (rule map_set_present [OF d o])
  have k: "map fst (map_set (rep item) (old @ [item]) groups) = map fst groups"
    using True by (simp add: map_set_map_fst)
  have "\<forall>(r, g) \<in> set (map_set (rep item) (old @ [item]) groups). g = groupOf rep (items @ [item]) r"
  proof (clarify)
    fix r g assume "(r, g) \<in> set (map_set (rep item) (old @ [item]) groups)"
    then consider "r = rep item" "g = old @ [item]" | "(r, g) \<in> set groups" "(r, g) \<noteq> (rep item, old)"
      unfolding s by auto
    then show "g = groupOf rep (items @ [item]) r"
    proof cases
      case 1
      with old show ?thesis by (simp add: groupOf_def)
    next
      case 2
      with assms have g: "g = groupOf rep items r" by (auto simp: groups_rel_def)
      have "r \<noteq> rep item"
      proof
        assume "r = rep item"
        with 2(1) o d have "g = old" by (metis Some_eq_map_of_iff option.inject)
        with 2(2) \<open>r = rep item\<close> show False by simp
      qed
      with g show ?thesis by (simp add: groupOf_def)
    qed
  qed
  moreover have "set (map fst groups) = rep ` set (items @ [item])"
    using assms True by (auto simp: groups_rel_def)
  ultimately show ?thesis
    unfolding addToGroup_present [OF d o] groups_rel_def k using d by simp
qed

lemma buildGroups_correct:
  assumes "ds_rel ds rep" and "set items \<subseteq> ds_keys ds" and "groups_rel rep seen groups"
  shows "\<exists>groups'. buildGroups items ds groups = Inr groups' \<and> groups_rel rep (seen @ items) groups'"
  using assms
proof (induction items arbitrary: ds seen groups)
  case Nil
  then show ?case by simp
next
  case (Cons item rest)
  from ds_find_correct [OF Cons.prems(1), of item] obtain ds1 where
    f: "ds_find ds item = Inr (ds1, rep item)" and r1: "ds_rel ds1 rep" and
    k1: "map fst (parent ds1) = set_add item (map fst (parent ds))"
    by blast
  have "ds_keys ds1 = ds_keys ds"
    using k1 Cons.prems(2) by (auto simp: ds_keys_def set_add_def)
  with Cons.prems(2) have s: "set rest \<subseteq> ds_keys ds1" by simp
  from Cons.IH [OF r1 s groups_rel_step [OF Cons.prems(3), of item]] f show ?case
    by simp
qed

text \<open>The sets that \<open>buildSets\<close> returns: one list per class of two or more keys.\<close>

lemma buildSets_correct:
  assumes "ds_rel ds rep"
  shows "\<exists>groups. buildGroups (map fst (parent ds)) ds [] = Inr groups \<and>
           groups_rel rep (map fst (parent ds)) groups \<and>
           buildSets ds = Inr (filter (\<lambda>group. length group > 1) (map snd groups))"
proof -
  have "groups_rel rep [] []" by (simp add: groups_rel_def)
  from buildGroups_correct [OF assms _ this, of "map fst (parent ds)"] obtain groups where
    g: "buildGroups (map fst (parent ds)) ds [] = Inr groups"
       "groups_rel rep (map fst (parent ds)) groups"
    by (auto simp: ds_keys_def)
  then show ?thesis by (auto simp: buildSets_def)
qed

lemma buildSets_sets:
  assumes "ds_rel ds rep" and "buildSets ds = Inr sets" and "s \<in> set sets"
  shows "distinct s" and "2 \<le> length s" and "set s \<subseteq> ds_keys ds"
    and "\<exists>r. s = groupOf rep (map fst (parent ds)) r"
proof -
  from buildSets_correct [OF assms(1)] assms(2) obtain groups where
    g: "groups_rel rep (map fst (parent ds)) groups"
       "sets = filter (\<lambda>group. length group > 1) (map snd groups)"
    by auto
  from assms(3) g(2) obtain r where r: "(r, s) \<in> set groups" and l: "length s > 1" by auto
  from g(1) r have s: "s = groupOf rep (map fst (parent ds)) r" by (auto simp: groups_rel_def)
  show "distinct s" unfolding s groupOf_def using ds_rel_distinct [OF assms(1)] by simp
  show "2 \<le> length s" using l by simp
  show "set s \<subseteq> ds_keys ds" unfolding s groupOf_def ds_keys_def by auto
  show "\<exists>r. s = groupOf rep (map fst (parent ds)) r" using s by blast
qed

lemma fold_min_Min: "fold min xs (x::nat) = Min (set (x # xs))"
  by (rule Min.set_eq_fold [symmetric])

lemma fold_max_Max: "fold max xs (x::nat) = Max (set (x # xs))"
  by (rule Max.set_eq_fold [symmetric])

lemma rangeOf_Min_Max:
  "s \<noteq> [] \<Longrightarrow> rangeOf s = \<lparr>scope_start = Min (set s), scope_end = Max (set s)\<rparr>"
  by (cases s) (simp_all add: rangeOf_def fold_min_Min fold_max_Max del: set_simps)

lemma rangeOf_proper:
  assumes "distinct s" and "2 \<le> length s"
  shows "proper (rangeOf s)"
proof -
  from assms(2) obtain a b rest where s: "s = a # b # rest"
    by (cases s; cases "tl s") auto
  with assms(1) have ne: "a \<noteq> b" by simp
  have fin: "finite (set s)" "a \<in> set s" "b \<in> set s" using s by simp_all
  have "Min (set s) \<le> a" "Min (set s) \<le> b"
    using Min_le [OF fin(1,2)] Min_le [OF fin(1,3)] by blast+
  then have "Min (set s) \<le> min a b" by simp
  moreover have "a \<le> Max (set s)" "b \<le> Max (set s)"
    using Max_ge [OF fin(1,2)] Max_ge [OF fin(1,3)] by blast+
  then have "max a b \<le> Max (set s)" by simp
  moreover have "min a b < max a b" using ne by (simp add: min_def max_def)
  ultimately have "Min (set s) < Max (set s)" by linarith
  moreover have "s \<noteq> []" using s by simp
  ultimately show ?thesis by (simp add: rangeOf_Min_Max proper_def)
qed

lemma mergeLoop_ascending:
  assumes "sorted (map scope_start (previous # rs))"
    and "list_all proper (previous # rs)"
    and "ascending acc"
    and "\<forall>a \<in> set acc. scope_end a < scope_start previous"
  shows "ascending (mergeLoop previous rs acc)"
  using assms
proof (induction rs arbitrary: previous acc)
  case Nil
  then show ?case
    by (auto simp: ascending_def sorted_wrt_append apart_def)
next
  case (Cons r rs)
  show ?case
  proof (cases "scope_end previous \<ge> scope_start r")
    case True
    let ?p = "\<lparr>scope_start = scope_start previous, scope_end = max (scope_end previous) (scope_end r)\<rparr>"
    have 1: "sorted (map scope_start (?p # rs))" using Cons.prems(1) by auto
    have "proper ?p" using Cons.prems(2) by (auto simp: proper_def max_def)
    then have 2: "list_all proper (?p # rs)" using Cons.prems(2) by simp
    have 4: "\<forall>a \<in> set acc. scope_end a < scope_start ?p" using Cons.prems(4) by simp
    from Cons.IH [OF 1 2 Cons.prems(3) 4] True show ?thesis by simp
  next
    case False
    have 1: "sorted (map scope_start (r # rs))" using Cons.prems(1) by simp
    have 2: "list_all proper (r # rs)" using Cons.prems(2) by simp
    have le: "scope_start previous \<le> scope_start r" using Cons.prems(1) by simp
    have 3: "ascending (acc @ [previous])"
      using Cons.prems(2,3,4) by (auto simp: ascending_def sorted_wrt_append apart_def)
    have 4: "\<forall>a \<in> set (acc @ [previous]). scope_end a < scope_start r"
      using Cons.prems(4) le False by auto
    from Cons.IH [OF 1 2 3 4] False show ?thesis by simp
  qed
qed

lemma mergeRanges_ascending:
  assumes "\<forall>s \<in> set sets. distinct s \<and> 2 \<le> length s"
  shows "ascending (mergeRanges sets)"
proof (cases "sort_key scope_start (map rangeOf sets)")
  case Nil
  then show ?thesis by (simp add: mergeRanges_def ascending_def)
next
  case (Cons r rs)
  have "sorted (map scope_start (sort_key scope_start (map rangeOf sets)))"
    by (rule sorted_sort_key)
  then have 1: "sorted (map scope_start (r # rs))" unfolding Cons .
  have "set (r # rs) = set (map rangeOf sets)"
    using Cons set_sort [of scope_start "map rangeOf sets"] by simp
  then have 2: "list_all proper (r # rs)"
    using assms rangeOf_proper unfolding list_all_iff by (metis (no_types, lifting) imageE list.set_map)
  have "ascending (mergeLoop r rs [])"
    by (rule mergeLoop_ascending [OF 1 2]) (simp_all add: ascending_def)
  then show ?thesis by (simp add: mergeRanges_def Cons)
qed

text \<open>\<open>getInstructionScopeRanges\<close> returns for every function body and every analysis
  result, and its scopes are in ascending order, apart, each with two ids or more.\<close>

lemma getInstructionScopeRanges_ascending:
  "\<exists>scopes. getInstructionScopeRanges func valuesInfo = Inr scopes \<and> ascending scopes"
proof -
  from unionAll_correct [OF ds_rel_empty, of func valuesInfo] obtain ds rep where
    u: "unionAll func valuesInfo emptyDisjointSet = Inr ds" and r: "ds_rel ds rep"
    by blast
  from buildSets_correct [OF r] obtain sets where b: "buildSets ds = Inr sets" by blast
  have "\<forall>s \<in> set sets. distinct s \<and> 2 \<le> length s"
    using buildSets_sets(1,2) [OF r b] by blast
  from mergeRanges_ascending [OF this] have "ascending (mergeRanges sets)" .
  moreover have "ascending []" by (simp add: ascending_def)
  ultimately show ?thesis
    using u b by (simp add: getInstructionScopeRanges_def)
qed

lemma hirIds_append [simp]: "hirIds (xs @ ys) = hirIds xs @ hirIds ys"
  by (simp add: hirIds_def)

lemma plainRange_ids: "hirIds (plainRange func lo hi) = filter (present func) [lo..<hi]"
proof -
  have "concat (map idsOf (concat (map (\<lambda>i. case map_get func i of None \<Rightarrow> []
          | Some instr \<Rightarrow> [PlainInstr instr i]) xs))) = filter (present func) xs" for xs
    by (induction xs) (auto simp: present_def split: option.splits)
  then show ?thesis by (simp add: hirIds_def plainRange_def)
qed

lemma plainRange_fromBody: "list_all (fromBody func) (plainRange func lo hi)"
proof -
  have "list_all (fromBody func) (concat (map (\<lambda>i. case map_get func i of None \<Rightarrow> []
          | Some instr \<Rightarrow> [PlainInstr instr i]) xs))" for xs
    by (induction xs) (auto split: option.splits)
  then show ?thesis by (simp add: plainRange_def)
qed

lemma blockStep_None: "map_get func i = None \<Longrightarrow> blockStep func valuesInfo i b = b"
  by (simp add: blockStep_def)

lemma blockStep_Some:
  "map_get func i = Some instr \<Longrightarrow> instrs (blockStep func valuesInfo i b) = map_set i instr (instrs b)"
  by (simp add: blockStep_def Let_def)

lemma blockSteps:
  "map fst (instrs (fold (blockStep func valuesInfo) [lo..<lo + n] \<lparr>instrs = [], decls = [], deps = []\<rparr>))
     = filter (present func) [lo..<lo + n]
   \<and> list_all (\<lambda>entry. map_get func (fst entry) = Some (snd entry))
        (instrs (fold (blockStep func valuesInfo) [lo..<lo + n] \<lparr>instrs = [], decls = [], deps = []\<rparr>))"
proof -
  define B where "B k = fold (blockStep func valuesInfo) [lo..<lo + k] \<lparr>instrs = [], decls = [], deps = []\<rparr>" for k
  have B0: "B 0 = \<lparr>instrs = [], decls = [], deps = []\<rparr>" by (simp add: B_def)
  have BS: "B (Suc k) = blockStep func valuesInfo (lo + k) (B k)" for k by (simp add: B_def)
  have "map fst (instrs (B n)) = filter (present func) [lo..<lo + n]
        \<and> list_all (\<lambda>entry. map_get func (fst entry) = Some (snd entry)) (instrs (B n))"
  proof (induction n)
    case 0
    then show ?case by (simp add: B0)
  next
    case (Suc n)
    then have ih1: "map fst (instrs (B n)) = filter (present func) [lo..<lo + n]"
      and ih2: "list_all (\<lambda>entry. map_get func (fst entry) = Some (snd entry)) (instrs (B n))"
      by blast+
    have u: "[lo..<lo + Suc n] = [lo..<lo + n] @ [lo + n]" by simp
    show ?case
    proof (cases "map_get func (lo + n)")
      case None
      then have np: "\<not> present func (lo + n)" by (simp add: present_def)
      have "B (Suc n) = B n" unfolding BS by (rule blockStep_None [OF None])
      with ih1 ih2 np show ?thesis unfolding u by simp
    next
      case (Some instr)
      then have pr: "present func (lo + n)" by (simp add: present_def)
      have "lo + n \<notin> set (map fst (instrs (B n)))" unfolding ih1 by simp
      then have m: "map_set (lo + n) instr (instrs (B n)) = instrs (B n) @ [(lo + n, instr)]"
        by (rule map_set_absent)
      have "instrs (B (Suc n)) = instrs (B n) @ [(lo + n, instr)]"
        unfolding BS blockStep_Some [OF Some] m ..
      with ih1 ih2 pr Some show ?thesis unfolding u by simp
    qed
  qed
  then show ?thesis unfolding B_def .
qed

lemma makeBlock_ids:
  assumes "scope_start sc \<le> scope_end sc"
  shows "map fst (instrs (makeBlock func valuesInfo sc))
           = filter (present func) [scope_start sc..<Suc (scope_end sc)]"
proof -
  from assms have e: "Suc (scope_end sc) = scope_start sc + (Suc (scope_end sc) - scope_start sc)"
    by simp
  show ?thesis
    unfolding makeBlock_def
    by (subst (1 2) e) (rule conjunct1 [OF blockSteps])
qed

lemma makeBlock_fromBody:
  assumes "scope_start sc \<le> scope_end sc"
  shows "fromBody func (Block (makeBlock func valuesInfo sc))"
proof -
  from assms have e: "Suc (scope_end sc) = scope_start sc + (Suc (scope_end sc) - scope_start sc)"
    by simp
  show ?thesis
    unfolding makeBlock_def fromBody.simps
    by (subst e) (rule conjunct2 [OF blockSteps])
qed

lemma hirIds_Block: "hirIds [Block b] = map fst (instrs b)"
  by (simp add: hirIds_def)

lemma filter_upt_join:
  assumes "a \<le> b" and "b \<le> c"
  shows "filter P [a..<b] @ filter P [b..<c] = filter P [a..<c]"
proof -
  from assms have "[a..<c] = [a..<b] @ [b..<c]"
    using upt_add_eq_append [of a b "c - b"] by simp
  then show ?thesis by simp
qed

lemma scopeLoop_ids:
  assumes "ascending scopes" and "\<forall>sc \<in> set scopes. startingInstrId \<le> scope_start sc"
  shows "\<exists>nxt hir'. scopeLoop func valuesInfo scopes startingInstrId hir = Inr (nxt, hir') \<and>
           startingInstrId \<le> nxt \<and>
           hirIds hir' = hirIds hir @ filter (present func) [startingInstrId..<nxt] \<and>
           (list_all (fromBody func) hir \<longrightarrow> list_all (fromBody func) hir')"
  using assms
proof (induction scopes arbitrary: startingInstrId hir)
  case Nil
  then show ?case by simp
next
  case (Cons sc rest)
  from Cons.prems(1) have p: "scope_start sc < scope_end sc"
    and a: "ascending rest" and ap: "\<forall>r \<in> set rest. scope_end sc < scope_start r"
    by (auto simp: ascending_def proper_def apart_def)
  from Cons.prems(2) have s: "startingInstrId \<le> scope_start sc" by simp
  let ?hir = "hir @ plainRange func startingInstrId (scope_start sc) @ [Block (makeBlock func valuesInfo sc)]"
  have step: "scopeLoop func valuesInfo (sc # rest) startingInstrId hir
              = scopeLoop func valuesInfo rest (scope_end sc + 1) ?hir"
    using p by (simp add: Let_def)
  have "\<forall>r \<in> set rest. scope_end sc + 1 \<le> scope_start r" using ap by auto
  from Cons.IH [OF a this, of ?hir] obtain nxt hir' where
    l: "scopeLoop func valuesInfo rest (scope_end sc + 1) ?hir = Inr (nxt, hir')" and
    n: "scope_end sc + 1 \<le> nxt" and
    i: "hirIds hir' = hirIds ?hir @ filter (present func) [scope_end sc + 1..<nxt]" and
    f: "list_all (fromBody func) ?hir \<longrightarrow> list_all (fromBody func) hir'"
    by blast
  have le: "scope_start sc \<le> scope_end sc" using p by simp
  have "hirIds ?hir = hirIds hir @ filter (present func) [startingInstrId..<scope_start sc]
                      @ filter (present func) [scope_start sc..<Suc (scope_end sc)]"
    by (simp add: plainRange_ids hirIds_Block makeBlock_ids [OF le])
  also have "\<dots> = hirIds hir @ filter (present func) [startingInstrId..<Suc (scope_end sc)]"
    using filter_upt_join [OF s, of "Suc (scope_end sc)" "present func"] le by simp
  finally have "hirIds hir' = hirIds hir @ filter (present func) [startingInstrId..<Suc (scope_end sc)]
                  @ filter (present func) [Suc (scope_end sc)..<nxt]"
    using i by simp
  also have "\<dots> = hirIds hir @ filter (present func) [startingInstrId..<nxt]"
    using filter_upt_join [of startingInstrId "Suc (scope_end sc)" nxt "present func"] s le n by simp
  finally have ids: "hirIds hir' = hirIds hir @ filter (present func) [startingInstrId..<nxt]" .
  have "list_all (fromBody func) hir \<longrightarrow> list_all (fromBody func) hir'"
    using f plainRange_fromBody [of func startingInstrId "scope_start sc"]
      makeBlock_fromBody [OF le, of func valuesInfo]
    by simp
  moreover have "startingInstrId \<le> nxt" using s le n by simp
  ultimately show ?case using step l ids by simp
qed

lemma dense_present: "dense func \<Longrightarrow> present func i \<longleftrightarrow> i < length func"
proof -
  assume d: "dense func"
  have "present func i \<longleftrightarrow> i \<in> set (map fst func)"
    unfolding present_def map_get_def by (simp add: map_of_eq_None_iff)
  with d show ?thesis by (simp add: dense_def)
qed

lemma dense_ids:
  assumes "dense func"
  shows "filter (present func) [0..<nxt] @ filter (present func) [nxt..<length func] = [0..<length func]"
proof (cases "nxt \<le> length func")
  case True
  have "filter (present func) [0..<length func] = [0..<length func]"
    by (simp add: dense_present [OF assms] filter_id_conv)
  with filter_upt_join [of 0 nxt "length func" "present func"] True show ?thesis by simp
next
  case False
  then have "[0..<nxt] = [0..<length func] @ [length func..<nxt]"
    using upt_add_eq_append [of 0 "length func" "nxt - length func"] by simp
  moreover have "filter (present func) [length func..<nxt] = []"
    by (simp add: dense_present [OF assms] filter_empty_conv)
  moreover have "filter (present func) [0..<length func] = [0..<length func]"
    by (simp add: dense_present [OF assms] filter_id_conv)
  ultimately show ?thesis using False by simp
qed

lemma makeReactiveInstrs_partition:
  assumes "dense func"
  shows "\<exists>hir. makeReactiveInstrs func valuesInfo = Inr hir
           \<and> hirIds hir = [0..<length func]
           \<and> list_all (fromBody func) hir"
proof -
  from getInstructionScopeRanges_ascending [of func valuesInfo] obtain scopes where
    g: "getInstructionScopeRanges func valuesInfo = Inr scopes" and a: "ascending scopes"
    by blast
  from scopeLoop_ids [OF a, of 0 func valuesInfo "[]"] obtain nxt hir' where
    l: "scopeLoop func valuesInfo scopes 0 [] = Inr (nxt, hir')" and
    i: "hirIds hir' = filter (present func) [0..<nxt]" and
    f: "list_all (fromBody func) hir'"
    by (auto simp: hirIds_def)
  let ?hir = "hir' @ plainRange func nxt (length func)"
  have m: "makeReactiveInstrs func valuesInfo = Inr ?hir"
    using g l by (simp add: makeReactiveInstrs_def makeReactiveInstrsFrom_def)
  have ids: "hirIds ?hir = [0..<length func]"
    using i dense_ids [OF assms, of nxt] by (simp add: plainRange_ids)
  have fb: "list_all (fromBody func) ?hir" using f plainRange_fromBody by simp
  from m ids fb show ?thesis by blast
qed

text \<open>
  Claim C10.  For every function body with the ids \<open>0, ..., size - 1\<close> and every analysis
  result, \<open>makeReactiveInstrs\<close> returns, and reading its sequence from left to right (the id
  of a pass-through instruction, the member ids of a block) gives exactly
  \<open>0, 1, ..., size - 1\<close>: every id exactly once, in strictly ascending order, so none is
  dropped or duplicated and none is both passed through and member of a block or member
  of two blocks.  Each id carries the instruction the function body holds for it.
\<close>

theorem partition_covers_each_id_once:
  assumes "dense func"
  shows "\<exists>hir. makeReactiveInstrs func valuesInfo = Inr hir
           \<and> hirIds hir = [0..<length func]
           \<and> distinct (hirIds hir) \<and> sorted_wrt (<) (hirIds hir)
           \<and> set (hirIds hir) = fst ` set func
           \<and> list_all (fromBody func) hir"
proof -
  from makeReactiveInstrs_partition [OF assms, of valuesInfo] obtain hir where
    m: "makeReactiveInstrs func valuesInfo = Inr hir" and ids: "hirIds hir = [0..<length func]"
    and fb: "list_all (fromBody func) hir"
    by blast
  have "set (map fst func) = set [0..<length func]"
    using assms unfolding dense_def by simp
  then have st: "set (hirIds hir) = fst ` set func" unfolding ids by simp
  have so: "sorted_wrt (<) (hirIds hir)" unfolding ids by (rule sorted_wrt_upt)
  have di: "distinct (hirIds hir)" unfolding ids by simp
  from m ids di so st fb show ?thesis by blast
qed

theorem partition_covers_each_id_once_witness:
  "dense blockExample
   \<and> makeReactiveInstrs blockExample blockExample_infos = Inr blockExample_reactive
   \<and> hirIds blockExample_reactive = [0, 1, 2, 3, 4]
   \<and> distinct (hirIds blockExample_reactive)
   \<and> list_all (fromBody blockExample) blockExample_reactive"
proof -
  have d: "dense blockExample" by (simp add: dense_def blockExample_def upt_rec)
  have e: "[0..<length blockExample] = [0, 1, 2, 3, 4]" by (simp add: blockExample_def upt_rec)
  from partition_covers_each_id_once [OF d, of blockExample_infos] blockExample_makeReactive d e
  show ?thesis by auto
qed





























lemma pairsOf_snoc_iff:
  assumes "equivalence E"
  shows "pairsOf (ms @ [i]) \<subseteq> E \<longleftrightarrow> (\<forall>m \<in> set ms. (i, m) \<in> E)"
proof (cases ms)
  case Nil
  then show ?thesis by (simp add: pairsOf_def)
next
  case (Cons first rest)
  note e = equivalenceD [OF assms]
  have p: "pairsOf (ms @ [i]) = (\<lambda>x. (first, x)) ` (set rest \<union> {i})"
    using Cons by (simp add: pairsOf_def)
  show ?thesis
  proof
    assume a: "pairsOf (ms @ [i]) \<subseteq> E"
    then have fi: "(first, i) \<in> E" unfolding p by auto
    show "\<forall>m \<in> set ms. (i, m) \<in> E"
    proof
      fix m assume "m \<in> set ms"
      then consider "m = first" | "m \<in> set rest" using Cons by auto
      then show "(i, m) \<in> E"
      proof cases
        case 1
        with e(2) [OF fi] show ?thesis by simp
      next
        case 2
        with a have "(first, m) \<in> E" unfolding p by auto
        from e(3) [OF e(2) [OF fi] this] show ?thesis .
      qed
    qed
  next
    assume a: "\<forall>m \<in> set ms. (i, m) \<in> E"
    then have "(i, first) \<in> E" using Cons by simp
    then have fi: "(first, i) \<in> E" by (rule e(2))
    show "pairsOf (ms @ [i]) \<subseteq> E"
      unfolding p
    proof (clarify)
      fix x assume "x \<in> set rest \<union> {i}"
      then consider "x = i" | "x \<in> set rest" by auto
      then show "(first, x) \<in> E"
      proof cases
        case 1
        with fi show ?thesis by simp
      next
        case 2
        with a Cons have "(i, x) \<in> E" by simp
        from e(3) [OF fi this] show ?thesis .
      qed
    qed
  qed
qed

lemma set_unionRequests:
  "set (unionRequests func valuesInfo) =
     {mutatorsOf valuesInfo i @ [i] | i. i \<in> fst ` set func \<and> memoized valuesInfo i}"
proof -
  have elem: "(case x of (i, _) \<Rightarrow>
                 case map_get valuesInfo i of
                   None \<Rightarrow> []
                 | Some info \<Rightarrow>
                     if shouldMemoize info
                     then [(case instructions info of None \<Rightarrow> [] | Some ms \<Rightarrow> ms) @ [i]]
                     else [])
              = (if memoized valuesInfo (fst x) then [mutatorsOf valuesInfo (fst x) @ [fst x]] else [])"
    for x :: "InstrId \<times> Instruction"
    by (cases x) (simp add: memoized_def mutatorsOf_def split: option.splits)
  have "unionRequests func valuesInfo =
          concat (map (\<lambda>x. if memoized valuesInfo (fst x)
                            then [mutatorsOf valuesInfo (fst x) @ [fst x]] else []) func)"
    unfolding unionRequests_def elem ..
  then have "set (unionRequests func valuesInfo) =
          (\<Union>x \<in> set func. if memoized valuesInfo (fst x) then {mutatorsOf valuesInfo (fst x) @ [fst x]} else {})"
    by (auto split: if_splits)
  also have "\<dots> = {mutatorsOf valuesInfo i @ [i] | i. i \<in> fst ` set func \<and> memoized valuesInfo i}"
    by (force split: if_splits)
  finally show ?thesis .
qed

lemma requestPairs_memoPairs:
  assumes "equivalence E"
  shows "requestPairs (unionRequests func valuesInfo) \<subseteq> E \<longleftrightarrow> memoPairs func valuesInfo \<subseteq> E"
proof -
  have "requestPairs (unionRequests func valuesInfo) \<subseteq> E \<longleftrightarrow>
          (\<forall>i. i \<in> fst ` set func \<and> memoized valuesInfo i \<longrightarrow> pairsOf (mutatorsOf valuesInfo i @ [i]) \<subseteq> E)"
    unfolding requestPairs_def set_unionRequests by blast
  also have "\<dots> \<longleftrightarrow>
          (\<forall>i. i \<in> fst ` set func \<and> memoized valuesInfo i \<longrightarrow> (\<forall>m \<in> set (mutatorsOf valuesInfo i). (i, m) \<in> E))"
    unfolding pairsOf_snoc_iff [OF assms] ..
  also have "\<dots> \<longleftrightarrow> memoPairs func valuesInfo \<subseteq> E"
    unfolding memoPairs_def by blast
  finally show ?thesis .
qed

lemma ker_memoEquiv:
  assumes "grows (\<lambda>x. x) rep' (requestPairs (unionRequests func valuesInfo))"
  shows "ker rep' = memoEquiv func valuesInfo"
proof
  from assms have g: "requestPairs (unionRequests func valuesInfo) \<subseteq> ker rep'"
    and l: "\<And>E. equivalence E \<Longrightarrow> ker (\<lambda>x. x) \<subseteq> E \<Longrightarrow>
              requestPairs (unionRequests func valuesInfo) \<subseteq> E \<Longrightarrow> ker rep' \<subseteq> E"
    unfolding grows_def by blast+
  show "ker rep' \<subseteq> memoEquiv func valuesInfo"
    unfolding memoEquiv_def
  proof (rule Inter_greatest)
    fix E assume "E \<in> {E. equivalence E \<and> memoPairs func valuesInfo \<subseteq> E}"
    then have e: "equivalence E" and m: "memoPairs func valuesInfo \<subseteq> E" by auto
    have "ker (\<lambda>x. x) \<subseteq> E" using equivalenceD(1) [OF e] by (auto simp: ker_def)
    from l [OF e this] requestPairs_memoPairs [OF e] m show "ker rep' \<subseteq> E" by blast
  qed
  have "memoPairs func valuesInfo \<subseteq> ker rep'"
    using requestPairs_memoPairs [OF equivalence_ker, of func valuesInfo rep'] g by blast
  with equivalence_ker [of rep'] show "memoEquiv func valuesInfo \<subseteq> ker rep'"
    unfolding memoEquiv_def by blast
qed

text \<open>The classes of the representative function of a disjoint-set structure.\<close>

lemma rep_key:
  assumes "ds_rel ds rep" and "k \<in> ds_keys ds"
  shows "rep k \<in> ds_keys ds"
  using ds_rel_root(1) [OF assms] by (auto simp: ds_keys_iff)

lemma class_key:
  assumes "ds_rel ds rep" and "k \<in> ds_keys ds"
  shows "classOf (ker rep) k = set (groupOf rep (map fst (parent ds)) (rep k))"
proof -
  have "y \<in> ds_keys ds" if "rep y = rep k" for y
  proof (rule ccontr)
    assume n: "y \<notin> ds_keys ds"
    from ds_rel_outside(1) [OF assms(1) n] that have "y = rep k" by simp
    with rep_key [OF assms] n show False by simp
  qed
  then show ?thesis
    unfolding classOf_def ker_def groupOf_def ds_keys_def by auto
qed

lemma class_outside:
  assumes "ds_rel ds rep" and "k \<notin> ds_keys ds"
  shows "classOf (ker rep) k = {k}"
proof -
  note o = ds_rel_outside(1) [OF assms]
  have "y = k" if "rep k = rep y" for y
  proof (cases "y \<in> ds_keys ds")
    case True
    from rep_key [OF assms(1) True] that o assms(2) show ?thesis by simp
  next
    case False
    from ds_rel_outside(1) [OF assms(1) False] that o show ?thesis by simp
  qed
  then show ?thesis unfolding classOf_def ker_def by auto
qed

lemma buildSets_classes:
  assumes "ds_rel ds rep" and "buildSets ds = Inr sets"
  shows "set (map set sets) = {C. (\<exists>x. C = classOf (ker rep) x) \<and> 2 \<le> card C}"
    and "list_all distinct sets" and "distinct (map set sets)"
proof -
  let ?keys = "map fst (parent ds)"
  from buildSets_correct [OF assms(1)] assms(2) obtain groups where
    g: "groups_rel rep ?keys groups"
       "sets = filter (\<lambda>group. length group > 1) (map snd groups)"
    by auto
  have dk: "distinct ?keys" by (rule ds_rel_distinct [OF assms(1)])
  have gd: "distinct (map fst groups)" and gk: "set (map fst groups) = rep ` set ?keys"
    and gg: "\<And>r s. (r, s) \<in> set groups \<Longrightarrow> s = groupOf rep ?keys r"
    using g(1) unfolding groups_rel_def by auto
  have ds: "distinct s" if "s \<in> set sets" for s
    using buildSets_sets(1) [OF assms that] .
  show "list_all distinct sets" using ds by (simp add: list_all_iff)
  have cl: "set s = classOf (ker rep) r \<and> r \<in> set s" if "(r, s) \<in> set groups" for r s
  proof -
    from that have "r \<in> set (map fst groups)" by force
    with gk obtain k where k: "k \<in> set ?keys" "rep k = r" by auto
    then have kk: "k \<in> ds_keys ds" by (simp add: ds_keys_def)
    have "classOf (ker rep) r = classOf (ker rep) k"
      using k(2) ds_rel_root(1) [OF assms(1) kk] ds_rel_edge(3) [OF assms(1) _ refl, of "rep k"]
      by (auto simp: classOf_def ker_def)
    also have "\<dots> = set (groupOf rep ?keys (rep k))" by (rule class_key [OF assms(1) kk])
    finally have c: "set s = classOf (ker rep) r" using gg [OF that] k(2) by simp
    have "(r, r) \<in> ker rep" by (simp add: ker_def)
    then show ?thesis using c by (simp add: classOf_def)
  qed
  show "set (map set sets) = {C. (\<exists>x. C = classOf (ker rep) x) \<and> 2 \<le> card C}"
  proof (intro set_eqI iffI)
    fix C assume "C \<in> set (map set sets)"
    then obtain s where s: "s \<in> set sets" "C = set s" by auto
    with g(2) obtain r where r: "(r, s) \<in> set groups" and l: "length s > 1" by auto
    from cl [OF r] s(2) have "C = classOf (ker rep) r" by simp
    moreover have "2 \<le> card C" using l ds [OF s(1)] s(2) by (simp add: distinct_card)
    ultimately show "C \<in> {C. (\<exists>x. C = classOf (ker rep) x) \<and> 2 \<le> card C}" by blast
  next
    fix C assume "C \<in> {C. (\<exists>x. C = classOf (ker rep) x) \<and> 2 \<le> card C}"
    then obtain x where x: "C = classOf (ker rep) x" and c: "2 \<le> card C" by blast
    have xk: "x \<in> ds_keys ds"
    proof (rule ccontr)
      assume "x \<notin> ds_keys ds"
      from class_outside [OF assms(1) this] x c show False by simp
    qed
    then have "rep x \<in> set (map fst groups)" using gk by (auto simp: ds_keys_def)
    then obtain s where s: "(rep x, s) \<in> set groups" by force
    from gg [OF s] class_key [OF assms(1) xk] x have cs: "C = set s" by simp
    have "distinct s" unfolding gg [OF s] groupOf_def using dk by simp
    with c cs have "length s > 1" by (simp add: distinct_card)
    with s g(2) have "s \<in> set sets" by force
    with cs show "C \<in> set (map set sets)" by auto
  qed
  have "distinct (map set (map snd groups))"
  proof (subst distinct_map, intro conjI inj_onI)
    show "distinct (map snd groups)"
      unfolding distinct_conv_nth
    proof (intro allI impI)
      fix a b assume ab: "a < length (map snd groups)" "b < length (map snd groups)" "a \<noteq> b"
      let ?ra = "fst (groups ! a)" and ?rb = "fst (groups ! b)"
      have ne: "?ra \<noteq> ?rb"
        using gd ab unfolding distinct_conv_nth by (metis length_map nth_map)
      have ma: "(?ra, snd (groups ! a)) \<in> set groups" "(?rb, snd (groups ! b)) \<in> set groups"
        using ab by simp_all
      show "map snd groups ! a \<noteq> map snd groups ! b"
      proof
        assume "map snd groups ! a = map snd groups ! b"
        with ab have e: "snd (groups ! a) = snd (groups ! b)" by simp
        from cl [OF ma(1)] cl [OF ma(2)] e have "?ra \<in> classOf (ker rep) ?rb" by auto
        moreover from cl [OF ma(1)] cl [OF ma(2)] e have "?rb \<in> classOf (ker rep) ?ra" by auto
        moreover have "rep ?ra = ?ra" "rep ?rb = ?rb"
        proof -
          have "r \<in> rep ` set ?keys \<Longrightarrow> rep r = r" for r
            using ds_rel_root(1) [OF assms(1)] ds_rel_edge(3) [OF assms(1) _ refl]
            by (auto simp: ds_keys_def)
          moreover have "?ra \<in> rep ` set ?keys" "?rb \<in> rep ` set ?keys"
            using gk ma by force+
          ultimately show "rep ?ra = ?ra" "rep ?rb = ?rb" by blast+
        qed
        ultimately show False using ne by (simp add: classOf_def ker_def)
      qed
    qed
  next
    fix s t assume st: "s \<in> set (map snd groups)" "t \<in> set (map snd groups)" "set s = set t"
    then obtain r q where r: "(r, s) \<in> set groups" and q: "(q, t) \<in> set groups" by auto
    from cl [OF r] cl [OF q] st(3) have "q \<in> classOf (ker rep) r" by auto
    then have e: "rep r = rep q" by (simp add: classOf_def ker_def)
    have "rep r = r" "rep q = q"
    proof -
      have "x \<in> rep ` set ?keys \<Longrightarrow> rep x = x" for x
        using ds_rel_root(1) [OF assms(1)] ds_rel_edge(3) [OF assms(1) _ refl]
        by (auto simp: ds_keys_def)
      moreover have "r \<in> rep ` set ?keys" "q \<in> rep ` set ?keys" using gk r q by force+
      ultimately show "rep r = r" "rep q = q" by blast+
    qed
    with e have "r = q" by simp
    with gg [OF r] gg [OF q] show "s = t" by simp
  qed
  then have "distinct (map set (filter (\<lambda>group. length group > 1) (map snd groups)))"
    by (simp add: distinct_map_filter)
  then show "distinct (map set sets)" using g(2) by simp
qed

lemma mergeLoop_acc: "mergeLoop p rs acc = acc @ mergeLoop p rs []"
proof (induction rs arbitrary: p acc)
  case Nil
  then show ?case by simp
next
  case (Cons r rs)
  show ?case
  proof (cases "scope_end p \<ge> scope_start r")
    case True
    with Cons.IH [of _ acc] show ?thesis by simp
  next
    case False
    with Cons.IH [of r "acc @ [p]"] Cons.IH [of r "[p]"] show ?thesis by simp
  qed
qed

lemma stepCovered_mono: "set a \<subseteq> set b \<Longrightarrow> stepCovered a k \<Longrightarrow> stepCovered b k"
  by (auto simp: stepCovered_def list_ex_iff)

lemma spanOf_mono: "set a \<subseteq> set b \<Longrightarrow> spanOf a sp \<Longrightarrow> spanOf b sp"
  unfolding spanOf_def list_all_iff using stepCovered_mono [of a b]
  by (auto simp: list_ex_iff)

lemma spanOf_iff:
  "spanOf ranges sp \<longleftrightarrow>
     (\<exists>r \<in> set ranges. scope_start r = scope_start sp) \<and>
     (\<exists>r \<in> set ranges. scope_end r = scope_end sp) \<and>
     (\<forall>k. scope_start sp \<le> k \<and> k < scope_end sp \<longrightarrow>
          (\<exists>r \<in> set ranges. scope_start r \<le> k \<and> k < scope_end r))"
  unfolding spanOf_def stepCovered_def list_all_iff list_ex_iff by auto

lemma spanOf_self: "spanOf (p # rs) p"
  by (auto simp: spanOf_def stepCovered_def list_all_iff)

lemma mergeLoop_merged:
  assumes "sorted (map scope_start (p # rs))"
  shows "merged (p # rs) (mergeLoop p rs []) \<and>
         (\<forall>sp \<in> set (mergeLoop p rs []). scope_start p \<le> scope_start sp)"
  using assms
proof (induction rs arbitrary: p)
  case Nil
  then show ?case
    by (simp add: merged_def within_def spanOf_self)
next
  case (Cons r rs)
  from Cons.prems have le: "scope_start p \<le> scope_start r"
    and ler: "\<forall>x \<in> set rs. scope_start r \<le> scope_start x"
    and lep: "\<forall>x \<in> set rs. scope_start p \<le> scope_start x"
    and srt: "sorted (map scope_start rs)"
    by auto
  show ?case
  proof (cases "scope_end p \<ge> scope_start r")
    case True
    let ?p = "\<lparr>scope_start = scope_start p, scope_end = max (scope_end p) (scope_end r)\<rparr>"
    let ?M = "mergeLoop ?p rs []"
    have m: "mergeLoop p (r # rs) [] = ?M" using True by simp
    have "sorted (map scope_start (?p # rs))" using lep srt by simp
    from Cons.IH [OF this] have
      a: "sorted_wrt apart ?M" and
      b: "\<forall>x \<in> set (?p # rs). \<exists>sp \<in> set ?M. within x sp" and
      c: "\<forall>sp \<in> set ?M. spanOf (?p # rs) sp" and
      d: "\<forall>sp \<in> set ?M. scope_start p \<le> scope_start sp"
      by (auto simp: merged_def list_all_iff list_ex_iff)
    from b obtain sp0 where sp0: "sp0 \<in> set ?M" "within ?p sp0" by auto
    have wp: "within p sp0" "within r sp0"
      using sp0(2) le by (auto simp: within_def)
    have b': "\<forall>x \<in> set (p # r # rs). \<exists>sp \<in> set ?M. within x sp"
      using b wp sp0(1) by auto
    have c': "spanOf (p # r # rs) sp" if "sp \<in> set ?M" for sp
    proof -
      from c that have s: "spanOf (?p # rs) sp" by blast
      from s obtain x1 where x1: "x1 \<in> set (?p # rs)" "scope_start x1 = scope_start sp"
        unfolding spanOf_iff by blast
      from s obtain x2 where x2: "x2 \<in> set (?p # rs)" "scope_end x2 = scope_end sp"
        unfolding spanOf_iff by blast
      from s have x3: "\<And>k. scope_start sp \<le> k \<Longrightarrow> k < scope_end sp \<Longrightarrow>
                         \<exists>x \<in> set (?p # rs). scope_start x \<le> k \<and> k < scope_end x"
        unfolding spanOf_iff by blast
      have 1: "\<exists>x \<in> set (p # r # rs). scope_start x = scope_start sp"
      proof (cases "x1 = ?p")
        case True
        with x1(2) have "scope_start p = scope_start sp" by simp
        then show ?thesis by auto
      next
        case False
        with x1 show ?thesis by auto
      qed
      have 2: "\<exists>x \<in> set (p # r # rs). scope_end x = scope_end sp"
      proof (cases "x2 = ?p")
        case True
        with x2(2) have "scope_end sp = scope_end p \<or> scope_end sp = scope_end r"
          by (auto simp: max_def split: if_splits)
        then show ?thesis by auto
      next
        case False
        with x2 show ?thesis by auto
      qed
      have 3: "\<exists>x \<in> set (p # r # rs). scope_start x \<le> k \<and> k < scope_end x"
        if k: "scope_start sp \<le> k" "k < scope_end sp" for k
      proof -
        from x3 [OF k] obtain x where x: "x \<in> set (?p # rs)" "scope_start x \<le> k" "k < scope_end x"
          by blast
        show ?thesis
        proof (cases "x = ?p")
          case True
          with x have kk: "scope_start p \<le> k" "k < max (scope_end p) (scope_end r)" by simp_all
          show ?thesis
          proof (cases "k < scope_end p")
            case True
            with kk(1) show ?thesis by auto
          next
            case False
            with kk(2) \<open>scope_end p \<ge> scope_start r\<close> have "scope_start r \<le> k" "k < scope_end r"
              by (auto simp: max_def split: if_splits)
            then show ?thesis by auto
          qed
        next
          case False
          with x show ?thesis by auto
        qed
      qed
      from 1 2 3 show ?thesis unfolding spanOf_iff by blast
    qed
    from a b' c' d show ?thesis
      unfolding m by (simp add: merged_def list_all_iff list_ex_iff)
  next
    case False
    let ?M = "mergeLoop r rs []"
    have m: "mergeLoop p (r # rs) [] = p # ?M"
      using False mergeLoop_acc [of r rs "[p]"] by simp
    have "sorted (map scope_start (r # rs))" using ler srt by simp
    from Cons.IH [OF this] have
      a: "sorted_wrt apart ?M" and
      b: "\<forall>x \<in> set (r # rs). \<exists>sp \<in> set ?M. within x sp" and
      c: "\<forall>sp \<in> set ?M. spanOf (r # rs) sp" and
      d: "\<forall>sp \<in> set ?M. scope_start r \<le> scope_start sp"
      by (auto simp: merged_def list_all_iff list_ex_iff)
    have a': "sorted_wrt apart (p # ?M)"
      using a d False by (auto simp: apart_def)
    have b': "\<forall>x \<in> set (p # r # rs). \<exists>sp \<in> set (p # ?M). within x sp"
      using b by (auto simp: within_def)
    have c': "\<forall>sp \<in> set (p # ?M). spanOf (p # r # rs) sp"
      using c spanOf_self [of p "r # rs"] spanOf_mono [of "r # rs" "p # r # rs"] by auto
    have d': "\<forall>sp \<in> set (p # ?M). scope_start p \<le> scope_start sp"
      using d le by auto
    from a' b' c' d' show ?thesis
      unfolding m by (simp add: merged_def list_all_iff list_ex_iff)
  qed
qed

lemma merged_set: "set a = set b \<Longrightarrow> merged a spans = merged b spans"
  by (simp add: merged_def spanOf_def stepCovered_def list_all_iff list_ex_iff)

lemma mergeRanges_merged: "merged (map rangeOf sets) (mergeRanges sets)"
proof (cases "sort_key scope_start (map rangeOf sets)")
  case Nil
  then have "map rangeOf sets = []" by (metis length_0_conv length_sort)
  with Nil show ?thesis by (simp add: mergeRanges_def merged_def)
next
  case (Cons r rs)
  have "sorted (map scope_start (sort_key scope_start (map rangeOf sets)))"
    by (rule sorted_sort_key)
  then have "sorted (map scope_start (r # rs))" unfolding Cons .
  from mergeLoop_merged [OF this] have "merged (r # rs) (mergeLoop r rs [])" by blast
  moreover have "set (r # rs) = set (map rangeOf sets)"
    using Cons set_sort [of scope_start "map rangeOf sets"] by simp
  ultimately show ?thesis
    using merged_set [of "r # rs" "map rangeOf sets"] by (simp add: mergeRanges_def Cons)
qed

lemma analyze_memoized:
  assumes "distinct (map fst func)" and "analyze func = Inr infos" and "i \<in> fst ` set func"
  shows "memoized infos i = (\<exists>info. map_get infos i = Some info \<and> shouldMemo info = Some True)"
proof -
  let ?mc = "getValuesThatMayChange func"
  let ?r = "map (step1_info func ?mc) func"
  from assms(3) obtain instr where mem: "(i, instr) \<in> set func" by auto
  let ?ds = "collectDependencies ?mc instr"
  have c: "map info_core infos = map info_core ?r"
    using analyze_core [OF assms(1)] assms(2) by auto
  have keys: "map fst ?r = map fst func"
    by (induction func) (auto simp: step1_info_def)
  have "(i, snd (step1_info func ?mc (i, instr))) \<in> set ?r"
    using mem by (force simp: step1_info_def)
  with assms(1) keys have "map_of ?r i = Some (snd (step1_info func ?mc (i, instr)))"
    by (metis map_of_is_SomeI)
  from info_core_lookup [OF c this] obtain info where
    l: "map_of infos i = Some info" and d: "dependencies info = Some ?ds" and
    s: "shouldMemo info = Some (isExpensiveOperation instr func \<and> ?ds \<noteq> [])"
    by (auto simp: step1_info_def)
  from l d s show ?thesis
    by (auto simp: memoized_def map_get_def shouldMemoize_def)
qed

lemma scopeRanges_classes:
  "\<exists>sets. getInstructionScopeRanges func valuesInfo = Inr (mergeRanges sets)
     \<and> list_all distinct sets \<and> distinct (map set sets)
     \<and> set (map set sets) = {C. (\<exists>x. C = classOf (memoEquiv func valuesInfo) x) \<and> 2 \<le> card C}"
proof -
  from unionAll_correct [OF ds_rel_empty, of func valuesInfo] obtain ds rep where
    u: "unionAll func valuesInfo emptyDisjointSet = Inr ds" and r: "ds_rel ds rep" and
    g: "grows (\<lambda>x. x) rep (requestPairs (unionRequests func valuesInfo))"
    by blast
  from buildSets_correct [OF r] obtain sets where b: "buildSets ds = Inr sets" by blast
  have "mergeRanges [] = []" by (simp add: mergeRanges_def)
  then have "getInstructionScopeRanges func valuesInfo = Inr (mergeRanges sets)"
    using u b by (cases sets) (simp_all add: getInstructionScopeRanges_def)
  with buildSets_classes [OF r b] ker_memoEquiv [OF g] show ?thesis by auto
qed

text \<open>
  Claim C2.  For every function body and every analysis result the scope ranges are
  computed without error from lists \<open>sets\<close> such that: (1) the lists are, without
  repetition, exactly the classes of two or more ids of the least equivalence that puts
  every instruction to memoize together with each id of its mutator set (a class of one
  id gives no list); for the result of \<open>analyze\<close> an instruction is one to memoize exactly
  when its \<open>shouldMemo\<close> is true; (2) the range of a list runs from its least to its
  greatest id; (3) the scopes returned are the merge of these ranges: they are in
  ascending order and apart, each with two ids or more, every range lies within one of
  them, and each of them starts and ends with a range and hangs together through ranges
  that overlap or touch (the end of one is at or after the start of the next);
  (4) in the loop of \<open>makeReactiveInstrs\<close> a scope whose start equals its end and whose
  instruction is a \<open>Declare\<close> is emitted as a pass-through instruction, not as a block.
\<close>

theorem scope_ranges_merge_memo_classes:
  "\<exists>sets.
       getInstructionScopeRanges func valuesInfo = Inr (mergeRanges sets)
     \<and> list_all distinct sets \<and> distinct (map set sets)
     \<and> set (map set sets) = {C. (\<exists>x. C = classOf (memoEquiv func valuesInfo) x) \<and> 2 \<le> card C}
     \<and> (distinct (map fst func) \<and> analyze func = Inr valuesInfo \<longrightarrow>
          (\<forall>i \<in> fst ` set func.
             memoized valuesInfo i =
               (\<exists>info. map_get valuesInfo i = Some info \<and> shouldMemo info = Some True)))
     \<and> list_all (\<lambda>s. rangeOf s = \<lparr>scope_start = Min (set s), scope_end = Max (set s)\<rparr>) sets
     \<and> merged (map rangeOf sets) (mergeRanges sets)
     \<and> ascending (mergeRanges sets)
     \<and> (scope_start sc = scope_end sc \<and> map_get func (scope_start sc) = Some (Declare lhs rhs) \<longrightarrow>
          scopeLoop func valuesInfo (sc # rest) startingInstrId hir =
          scopeLoop func valuesInfo rest (scope_end sc + 1)
            (hir @ plainRange func startingInstrId (scope_start sc)
                 @ [PlainInstr (Declare lhs rhs) (scope_start sc)]))"
proof -
  from scopeRanges_classes [of func valuesInfo] obtain sets where
    a: "getInstructionScopeRanges func valuesInfo = Inr (mergeRanges sets)" and
    b: "list_all distinct sets" "distinct (map set sets)" and
    c: "set (map set sets) = {C. (\<exists>x. C = classOf (memoEquiv func valuesInfo) x) \<and> 2 \<le> card C}"
    by blast
  have two: "2 \<le> length s" if "s \<in> set sets" for s
  proof -
    from that c have "2 \<le> card (set s)" by auto
    also have "\<dots> \<le> length s" by (rule card_length)
    finally show ?thesis .
  qed
  have d: "distinct (map fst func) \<and> analyze func = Inr valuesInfo \<longrightarrow>
          (\<forall>i \<in> fst ` set func.
             memoized valuesInfo i =
               (\<exists>info. map_get valuesInfo i = Some info \<and> shouldMemo info = Some True))"
    using analyze_memoized by blast
  have e: "list_all (\<lambda>s. rangeOf s = \<lparr>scope_start = Min (set s), scope_end = Max (set s)\<rparr>) sets"
    unfolding list_all_iff
  proof
    fix s assume "s \<in> set sets"
    from two [OF this] have "s \<noteq> []" by auto
    then show "rangeOf s = \<lparr>scope_start = Min (set s), scope_end = Max (set s)\<rparr>"
      by (rule rangeOf_Min_Max)
  qed
  have h: "merged (map rangeOf sets) (mergeRanges sets)" by (rule mergeRanges_merged)
  have "\<forall>s \<in> set sets. distinct s \<and> 2 \<le> length s"
    using b(1) two by (simp add: list_all_iff)
  from mergeRanges_ascending [OF this] have k: "ascending (mergeRanges sets)" .
  have l: "scope_start sc = scope_end sc \<and> map_get func (scope_start sc) = Some (Declare lhs rhs) \<longrightarrow>
          scopeLoop func valuesInfo (sc # rest) startingInstrId hir =
          scopeLoop func valuesInfo rest (scope_end sc + 1)
            (hir @ plainRange func startingInstrId (scope_start sc)
                 @ [PlainInstr (Declare lhs rhs) (scope_start sc)])"
  proof (intro impI, elim conjE)
    assume e: "scope_start sc = scope_end sc"
      and g: "map_get func (scope_start sc) = Some (Declare lhs rhs)"
    show "scopeLoop func valuesInfo (sc # rest) startingInstrId hir =
          scopeLoop func valuesInfo rest (scope_end sc + 1)
            (hir @ plainRange func startingInstrId (scope_start sc)
                 @ [PlainInstr (Declare lhs rhs) (scope_start sc)])"
      using e g by (simp add: Let_def)
  qed
  from a b c d e h k l show ?thesis by blast
qed

theorem scope_ranges_merge_memo_classes_witness:
  "distinct (map fst blockExample) \<and> analyze blockExample = Inr blockExample_infos
   \<and> getInstructionScopeRanges blockExample blockExample_infos = Inr [\<lparr>scope_start = 1, scope_end = 3\<rparr>]
   \<and> (\<exists>sets. mergeRanges sets = [\<lparr>scope_start = 1, scope_end = 3\<rparr>]
         \<and> set (map set sets)
             = {C. (\<exists>x. C = classOf (memoEquiv blockExample blockExample_infos) x) \<and> 2 \<le> card C}
         \<and> merged (map rangeOf sets) (mergeRanges sets) \<and> ascending (mergeRanges sets))
   \<and> memoized blockExample_infos 1
   \<and> map_get declExample 2 = Some (Declare ''c'' 1)
   \<and> scopeLoop declExample [] [\<lparr>scope_start = 2, scope_end = 2\<rparr>] 0 [] =
       Inr (3, [PlainInstr (Param ''a'') 0, PlainInstr (LoadConstant ''1'') 1,
                PlainInstr (Declare ''c'' 1) 2])"
proof -
  have d: "distinct (map fst blockExample)" by (simp add: blockExample_def)
  have k: "1 \<in> fst ` set blockExample" by (simp add: blockExample_def)
  from scope_ranges_merge_memo_classes
         [of blockExample blockExample_infos "\<lparr>scope_start = 2, scope_end = 2\<rparr>" "''c''" 1 "[]" 0 "[]"]
  obtain sets where
    a: "getInstructionScopeRanges blockExample blockExample_infos = Inr (mergeRanges sets)" and
    c: "set (map set sets)
          = {C. (\<exists>x. C = classOf (memoEquiv blockExample blockExample_infos) x) \<and> 2 \<le> card C}" and
    m: "distinct (map fst blockExample) \<and> analyze blockExample = Inr blockExample_infos \<longrightarrow>
          (\<forall>i \<in> fst ` set blockExample.
             memoized blockExample_infos i =
               (\<exists>info. map_get blockExample_infos i = Some info \<and> shouldMemo info = Some True))" and
    g: "merged (map rangeOf sets) (mergeRanges sets)" "ascending (mergeRanges sets)"
    by blast
  from a blockExample_ranges have r: "mergeRanges sets = [\<lparr>scope_start = 1, scope_end = 3\<rparr>]" by simp
  from m d blockExample_analyze k
  have "memoized blockExample_infos 1 =
          (\<exists>info. map_get blockExample_infos 1 = Some info \<and> shouldMemo info = Some True)"
    by blast
  moreover have "\<exists>info. map_get blockExample_infos 1 = Some info \<and> shouldMemo info = Some True"
    by (simp add: blockExample_infos_def map_get_def)
  ultimately have mm: "memoized blockExample_infos 1" by simp
  have l: "map_get declExample 2 = Some (Declare ''c'' 1)"
    by (simp add: declExample_def map_get_def)
  have e: "scope_start \<lparr>scope_start = 2, scope_end = 2\<rparr> = scope_end \<lparr>scope_start = 2, scope_end = 2\<rparr>
           \<and> map_get declExample (scope_start \<lparr>scope_start = 2, scope_end = 2\<rparr>) = Some (Declare ''c'' 1)"
    using l by simp
  from scope_ranges_merge_memo_classes
         [of declExample "[]" "\<lparr>scope_start = 2, scope_end = 2\<rparr>" "''c''" 1 "[]" 0 "[]"] e
  have "scopeLoop declExample [] [\<lparr>scope_start = 2, scope_end = 2\<rparr>] 0 [] =
          scopeLoop declExample [] [] (2 + 1)
            ([] @ plainRange declExample 0 2 @ [PlainInstr (Declare ''c'' 1) 2])"
    by auto
  moreover have "plainRange declExample 0 2 = [PlainInstr (Param ''a'') 0, PlainInstr (LoadConstant ''1'') 1]"
    by (simp add: plainRange_def declExample_def map_get_def upt_rec)
  ultimately have sl: "scopeLoop declExample [] [\<lparr>scope_start = 2, scope_end = 2\<rparr>] 0 [] =
       Inr (3, [PlainInstr (Param ''a'') 0, PlainInstr (LoadConstant ''1'') 1,
                PlainInstr (Declare ''c'' 1) 2])"
    by simp
  from d blockExample_analyze blockExample_ranges r c g mm l sl show ?thesis by blast
qed

end
